theory Spec2Isabelle
  imports Main
begin

section \<open>JavaScript strings\<close>

text \<open>
  A JavaScript string is modelled as a \<^typ>\<open>string\<close>: a list of 8-bit characters, read as the
  UTF-8 encoding of the text. White space (\<open>\s\<close>, \<open>trim\<close>) and case mapping
  (\<open>toLowerCase\<close>, the \<open>i\<close> flag) are modelled on the ASCII range; every character
  above it is neither white space nor cased. A string that JavaScript treats as
  \<open>null\<close>, \<open>undefined\<close> or \<open>''\<close> in a truthiness test is the empty string.
\<close>

definition newline :: char where
  "newline = CHR 0x0A"

definition isSpace :: "char \<Rightarrow> bool" where
  "isSpace c \<longleftrightarrow> c \<in> set [CHR 0x09, CHR 0x0A, CHR 0x0B, CHR 0x0C, CHR 0x0D, CHR 0x20]"

definition isLineBreak :: "char \<Rightarrow> bool" where
  "isLineBreak c \<longleftrightarrow> c = CHR 0x0A \<or> c = CHR 0x0D"

definition trim :: "string \<Rightarrow> string" where
  "trim s = rev (dropWhile isSpace (rev (dropWhile isSpace s)))"

definition toLowerChar :: "char \<Rightarrow> char" where
  "toLowerChar c =
     (case map_of (zip ''ABCDEFGHIJKLMNOPQRSTUVWXYZ'' ''abcdefghijklmnopqrstuvwxyz'') c of
        Some d \<Rightarrow> d
      | None \<Rightarrow> c)"

definition toLowerCase :: "string \<Rightarrow> string" where
  "toLowerCase s = map toLowerChar s"

text \<open>\<open>s.startsWith(p)\<close>\<close>

definition startsWith :: "string \<Rightarrow> string \<Rightarrow> bool" where
  "startsWith s p \<longleftrightarrow> take (length p) s = p"

text \<open>\<open>s.includes(p)\<close>\<close>

fun includesStr :: "string \<Rightarrow> string \<Rightarrow> bool" where
  "includesStr [] p = (p = [])"
| "includesStr (c # s) p = (startsWith (c # s) p \<or> includesStr s p)"

text \<open>\<open>s.split(c)\<close> for a one-character separator: never the empty list.\<close>

fun splitStr :: "char \<Rightarrow> string \<Rightarrow> string list" where
  "splitStr c [] = [[]]"
| "splitStr c (x # xs) =
     (if x = c then [] # splitStr c xs
      else (case splitStr c xs of
              [] \<Rightarrow> [[x]]
            | l # ls \<Rightarrow> (x # l) # ls))"

text \<open>\<open>parts.join('\n')\<close>\<close>

fun joinLines :: "string list \<Rightarrow> string" where
  "joinLines [] = []"
| "joinLines [p] = p"
| "joinLines (p # q # ps) = p @ newline # joinLines (q # ps)"

text \<open>
  A regular expression without the sticky flag is tried at every start position from the
  left, the end of the input included; \<open>searchFrom m s\<close> is the first success of the
  anchored matcher \<open>m\<close>.
\<close>

fun searchFrom :: "(string \<Rightarrow> 'a option) \<Rightarrow> string \<Rightarrow> 'a option" where
  "searchFrom m [] = m []"
| "searchFrom m (c # s) =
     (case m (c # s) of
        Some r \<Rightarrow> Some r
      | None \<Rightarrow> searchFrom m s)"

text \<open>A literal under the \<open>i\<close> flag, anchored: the rest of the input after it.\<close>

definition lit :: "string \<Rightarrow> string \<Rightarrow> string option" where
  "lit p s =
     (if toLowerCase (take (length p) s) = toLowerCase p then Some (drop (length p) s) else None)"

text \<open>
  \<open>\s+\<close> before a literal that starts with a character that is not white space: the
  whole run is taken, since a shorter one leaves white space where the literal must start.
\<close>

definition spaces1 :: "string \<Rightarrow> string option" where
  "spaces1 s =
     (case s of
        [] \<Rightarrow> None
      | c # _ \<Rightarrow> if isSpace c then Some (dropWhile isSpace s) else None)"

section \<open>The verifier script (strict two-way verify)\<close>

subsection \<open>Helpers\<close>

text \<open>\<open>normalize(str)\<close>: \<open>(str || '').trim().toLowerCase()\<close>\<close>

definition normalize :: "string \<Rightarrow> string" where
  "normalize str = toLowerCase (trim str)"

text \<open>\<open>str.replace(/^\*{1,2}/, '')\<close>\<close>

definition stripLeadingStars :: "string \<Rightarrow> string" where
  "stripLeadingStars s =
     (if startsWith s ''**'' then drop 2 s
      else if startsWith s ''*'' then drop 1 s
      else s)"

text \<open>
  \<open>str.replace(/\*{1,2}$/, '')\<close>: the leftmost position from which one or two
  asterisks reach the end of the input, so two of them go when the input ends in two.
\<close>

definition stripTrailingStars :: "string \<Rightarrow> string" where
  "stripTrailingStars s = rev (stripLeadingStars (rev s))"

text \<open>
  \<open>str.match(/^\[([^\]]+)\]\([^)]+\)$/)\<close>: the label, when the whole input is
  \<open>[label](url)\<close> with a non-empty label free of \<open>]\<close> and a non-empty url free of
  \<open>)\<close>.
\<close>

definition linkMatch :: "string \<Rightarrow> string option" where
  "linkMatch s =
     (case s of
        [] \<Rightarrow> None
      | c # r \<Rightarrow>
          if c \<noteq> CHR ''['' then None
          else
            (let label = takeWhile (\<lambda>x. x \<noteq> CHR '']'') r;
                 r1 = dropWhile (\<lambda>x. x \<noteq> CHR '']'') r
             in if label = [] \<or> \<not> startsWith r1 '']('' then None
                else
                  (let url = takeWhile (\<lambda>x. x \<noteq> CHR '')'') (drop 2 r1);
                       r2 = dropWhile (\<lambda>x. x \<noteq> CHR '')'') (drop 2 r1)
                   in if url \<noteq> [] \<and> r2 = '')'' then Some label else None)))"

definition stripMarkdown :: "string \<Rightarrow> string" where
  "stripMarkdown str =
     (if str = [] then str
      else
        (let str1 = stripTrailingStars (stripLeadingStars str);
             str2 = (case linkMatch str1 of Some label \<Rightarrow> label | None \<Rightarrow> str1);
             str3 = stripTrailingStars (stripLeadingStars str2)
         in trim str3))"

subsection \<open>Messages\<close>

record embed =
  title :: string
  description :: string
  embedFields :: "(string \<times> string) list"

record message =
  msgId :: nat
  createdTimestamp :: int
  content :: string
  embeds :: "embed list"

text \<open>
  \<open>buildFullTextFromMessage(message)\<close>: the content when it is not blank, then for each
  embed its description when it has one and each field as \<open>Name: Value\<close>.
\<close>

definition embedParts :: "embed \<Rightarrow> string list" where
  "embedParts e =
     (if description e \<noteq> [] then [description e] else [])
     @ map (\<lambda>(name, value). name @ '': '' @ value) (embedFields e)"

definition buildFullTextFromMessage :: "message \<Rightarrow> string" where
  "buildFullTextFromMessage m =
     joinLines
       ((if content m \<noteq> [] \<and> trim (content m) \<noteq> [] then [content m] else [])
        @ concat (map embedParts (embeds m)))"

subsection \<open>The parser\<close>

record parsed =
  redditName :: string
  discordName :: string
  status :: string

definition botLinkedPrefix :: string where
  "botLinkedPrefix = [CHR 0xE2, CHR 0x9C, CHR 0x85] @ '' Linked Reddit''"

definition botNotFoundPrefix :: string where
  "botNotFoundPrefix = ''I couldn'' @ [CHR 0x27] @ ''t find a member''"

text \<open>\<open>fullText.split('\n').map(l => l.trim()).filter(Boolean)\<close>\<close>

definition linesOf :: "string \<Rightarrow> string list" where
  "linesOf fullText = filter (\<lambda>l. l \<noteq> []) (map trim (splitStr newline fullText))"

text \<open>\<open>lines.find(line => line.toLowerCase().startsWith(label))\<close>\<close>

definition findLine :: "string \<Rightarrow> string list \<Rightarrow> string option" where
  "findLine label lines = find (\<lambda>line. startsWith (toLowerCase line) label) lines"

text \<open>
  \<open>line.replace(/^label\s*/i, '').trim()\<close> for a label of the given length, on a line
  that \<open>findLine\<close> chose.
\<close>

definition dropLabel :: "string \<Rightarrow> string \<Rightarrow> string" where
  "dropLabel label line =
     (case lit label line of
        Some r \<Rightarrow> trim (dropWhile isSpace r)
      | None \<Rightarrow> trim line)"

text \<open>Step 1 of the parser: the name on the Author line, \<open>null\<close> when there is none.\<close>

definition authorName :: "string list \<Rightarrow> string option" where
  "authorName lines =
     (case findLine ''author:'' lines of
        None \<Rightarrow> None
      | Some authorLine \<Rightarrow>
          (let namePart = stripMarkdown (dropLabel ''author:'' authorLine)
           in if namePart = [] then None else Some namePart))"

text \<open>\<open>:\s*([^\s]+)\<close>, anchored: the captured token.\<close>

definition colonToken :: "string \<Rightarrow> string option" where
  "colonToken s =
     (case s of
        [] \<Rightarrow> None
      | c # r \<Rightarrow>
          if c \<noteq> CHR '':'' then None
          else
            (let r1 = dropWhile isSpace r
             in if r1 = [] then None else Some (takeWhile (\<lambda>x. \<not> isSpace x) r1)))"

text \<open>\<open>\s+with\s+discord\s+id\<close>, anchored: the rest of the input after it.\<close>

definition withDiscordId :: "string \<Rightarrow> string option" where
  "withDiscordId s =
     Option.bind (spaces1 s) (\<lambda>s1.
     Option.bind (lit ''with'' s1) (\<lambda>s2.
     Option.bind (spaces1 s2) (\<lambda>s3.
     Option.bind (lit ''discord'' s3) (\<lambda>s4.
     Option.bind (spaces1 s4) (\<lambda>s5.
     lit ''id'' s5)))))"

text \<open>
  \<open>/discord(?:\s+with\s+discord\s+id)?:\s*([^\s]+)/i\<close>, anchored: the optional group is
  tried first, and skipped when the match fails with it.
\<close>

definition discordAt :: "string \<Rightarrow> string option" where
  "discordAt s =
     (case lit ''discord'' s of
        None \<Rightarrow> None
      | Some r \<Rightarrow>
          (case Option.bind (withDiscordId r) colonToken of
             Some tok \<Rightarrow> Some tok
           | None \<Rightarrow> colonToken r))"

text \<open>Step 2 of the parser: the Discord name on the Body line.\<close>

definition bodyDiscordName :: "string list \<Rightarrow> string option" where
  "bodyDiscordName lines =
     (case findLine ''body:'' lines of
        None \<Rightarrow> None
      | Some bodyLine \<Rightarrow>
          (case searchFrom discordAt (stripMarkdown (dropLabel ''body:'' bodyLine)) of
             None \<Rightarrow> None
           | Some tok \<Rightarrow> Some (trim tok)))"

text \<open>
  Step 3 of the parser: \<open>statusLine.split(':')[1]\<close>, trimmed, and \<open>'Unknown'\<close> when
  that is empty or there is no Status line.
\<close>

definition statusOf :: "string list \<Rightarrow> string" where
  "statusOf lines =
     (case findLine ''status:'' lines of
        None \<Rightarrow> ''Unknown''
      | Some statusLine \<Rightarrow>
          (let parts = splitStr (CHR '':'') statusLine;
               p1 = (case parts of _ # p # _ \<Rightarrow> p | _ \<Rightarrow> [])
           in if trim p1 = [] then ''Unknown'' else trim p1))"

definition parseModmailMessageFromFullText :: "string \<Rightarrow> parsed option" where
  "parseModmailMessageFromFullText fullText =
     (case linesOf fullText of
        [] \<Rightarrow> None
      | first # rest \<Rightarrow>
          if startsWith first botLinkedPrefix \<or> startsWith first botNotFoundPrefix then None
          else
            (let lines = first # rest;
                 rn = (case authorName lines of
                         Some n \<Rightarrow> n
                       | None \<Rightarrow> stripMarkdown first);
                 st = statusOf lines
             in case bodyDiscordName lines of
                  None \<Rightarrow> None
                | Some dn \<Rightarrow>
                    if rn = [] \<or> dn = [] then None
                    else Some \<lparr>redditName = rn, discordName = dn, status = st\<rparr>))"

subsection \<open>The scan of the modmail channel\<close>

record member =
  username :: string
  globalName :: string
  displayName :: string
  tag :: string
  hasRole :: bool

definition MAX_SCANNED :: nat where
  "MAX_SCANNED = 500"

text \<open>What the inner \<open>for\<close> loop leaves: a \<open>return\<close> of the function, or the count after the batch.\<close>

datatype 'a loop = Return 'a | Continue nat

type_synonym match = "parsed \<times> message"

definition isBanned :: "string \<Rightarrow> bool" where
  "isBanned st \<longleftrightarrow> st \<noteq> [] \<and> includesStr (toLowerCase st) ''banned''"

definition discordMatches :: "string \<Rightarrow> string \<Rightarrow> string \<Rightarrow> bool" where
  "discordMatches parsedDiscord uname gname \<longleftrightarrow>
     (if parsedDiscord = uname then True
      else if gname \<noteq> [] \<and> parsedDiscord = gname then True
      else False)"

fun scanBatch :: "int \<Rightarrow> string \<Rightarrow> string \<Rightarrow> string \<Rightarrow> nat \<Rightarrow> message list \<Rightarrow> match option loop" where
  "scanBatch cutoff targetReddit uname gname scanned [] = Continue scanned"
| "scanBatch cutoff targetReddit uname gname scanned (msg # batch) =
     (if scanned + 1 > MAX_SCANNED then Return None
      else if createdTimestamp msg < cutoff then Return None
      else
        (case parseModmailMessageFromFullText (buildFullTextFromMessage msg) of
           None \<Rightarrow> scanBatch cutoff targetReddit uname gname (scanned + 1) batch
         | Some p \<Rightarrow>
             if isBanned (status p) then
               scanBatch cutoff targetReddit uname gname (scanned + 1) batch
             else if normalize (redditName p) \<noteq> targetReddit then
               scanBatch cutoff targetReddit uname gname (scanned + 1) batch
             else if \<not> discordMatches (normalize (discordName p)) uname gname then
               scanBatch cutoff targetReddit uname gname (scanned + 1) batch
             else Return (Some (p, msg))))"

lemma scanBatch_Cons_Continue:
  assumes "scanBatch cutoff tr un gn scanned (msg # batch) = Continue n"
  shows "scanBatch cutoff tr un gn (scanned + 1) batch = Continue n"
    and "scanned + 1 \<le> MAX_SCANNED"
  using assms by (auto split: if_splits option.splits)

lemma scanBatch_Continue_count:
  "scanBatch cutoff tr un gn scanned batch = Continue n \<Longrightarrow> n = scanned + length batch"
proof (induction batch arbitrary: scanned)
  case Nil
  then show ?case by simp
next
  case (Cons msg batch)
  from Cons.IH [OF scanBatch_Cons_Continue(1) [OF Cons.prems]]
  show ?case by simp
qed

lemma scanBatch_Continue_cap:
  assumes "scanBatch cutoff tr un gn scanned batch = Continue n" and "batch \<noteq> []"
  shows "n \<le> MAX_SCANNED"
  using assms
proof (induction batch arbitrary: scanned)
  case Nil
  then show ?case by simp
next
  case (Cons msg batch)
  note rest = scanBatch_Cons_Continue(1) [OF Cons.prems(1)]
    and le = scanBatch_Cons_Continue(2) [OF Cons.prems(1)]
  show ?case
  proof (cases "batch = []")
    case True
    with rest le show ?thesis by simp
  next
    case False
    with Cons.IH rest show ?thesis by blast
  qed
qed

text \<open>
  The \<open>while (true)\<close> loop. \<open>fetch\<close> is the channel's \<open>messages.fetch\<close> with
  \<open>limit: 100\<close>, given the \<open>before\<close> cursor when there is one. The loop ends because
  every batch that does not return raises the count, which is capped.
\<close>

function scanLoop ::
  "(nat option \<Rightarrow> message list) \<Rightarrow> int \<Rightarrow> string \<Rightarrow> string \<Rightarrow> string \<Rightarrow> nat option \<Rightarrow> nat
     \<Rightarrow> match option" where
  "scanLoop fetch cutoff targetReddit uname gname lastId scanned =
     (if fetch lastId = [] then None
      else
        (case scanBatch cutoff targetReddit uname gname scanned (fetch lastId) of
           Return r \<Rightarrow> r
         | Continue scanned' \<Rightarrow>
             scanLoop fetch cutoff targetReddit uname gname
               (Some (msgId (last (fetch lastId)))) scanned'))"
  by pat_completeness auto
termination
proof (relation "measure (\<lambda>(fetch, cutoff, tr, un, gn, lastId, scanned). MAX_SCANNED - scanned)")
  show "wf (measure (\<lambda>(fetch, cutoff, tr, un, gn, lastId, scanned). MAX_SCANNED - scanned))"
    by simp
next
  fix fetch :: "nat option \<Rightarrow> message list"
    and cutoff :: int and tr un gn :: string and lastId :: "nat option" and scanned n :: nat
  assume ne: "fetch lastId \<noteq> []"
    and c: "scanBatch cutoff tr un gn scanned (fetch lastId) = Continue n"
  have "n = scanned + length (fetch lastId)" and "n \<le> MAX_SCANNED"
    using scanBatch_Continue_count [OF c] scanBatch_Continue_cap [OF c ne] by auto
  with ne have "scanned < n" by (cases "fetch lastId") auto
  with \<open>n \<le> MAX_SCANNED\<close>
  show "((fetch, cutoff, tr, un, gn, Some (msgId (last (fetch lastId))), n),
         (fetch, cutoff, tr, un, gn, lastId, scanned))
        \<in> measure (\<lambda>(fetch, cutoff, tr, un, gn, lastId, scanned). MAX_SCANNED - scanned)"
    by simp
qed

declare scanLoop.simps [simp del]

text \<open>
  \<open>findMatchingModmail(modmailChannel, redditNameInput, member, lookbackHours)\<close>, with
  \<open>Date.now()\<close> as the argument \<open>now\<close> (milliseconds).
\<close>

definition findMatchingModmail ::
  "(nat option \<Rightarrow> message list) \<Rightarrow> int \<Rightarrow> string \<Rightarrow> member \<Rightarrow> int \<Rightarrow> match option" where
  "findMatchingModmail fetch now redditNameInput mem lookbackHours =
     scanLoop fetch (now - lookbackHours * 60 * 60 * 1000)
       (normalize redditNameInput) (normalize (username mem)) (normalize (globalName mem))
       None 0"

subsection \<open>The verify command\<close>

text \<open>\<open>s.split(/\s+/)\<close>: the pieces between the maximal runs of white space.\<close>

function splitWs :: "string \<Rightarrow> string list" where
  "splitWs [] = [[]]"
| "splitWs (c # s) =
     (if isSpace c then [] # splitWs (dropWhile isSpace s)
      else (case splitWs s of
              [] \<Rightarrow> [[c]]
            | l # ls \<Rightarrow> (c # l) # ls))"
  by pat_completeness auto
termination
  by (relation "measure length") (auto simp: length_dropWhile_le less_Suc_eq_le)

text \<open>
  What the handler does to the outside, in order: replies in the channel, the two
  mutations of the member with their outcome (\<open>False\<close> when the call throws), and the
  lines it logs about them. Replies and fetches are taken to succeed.
\<close>

datatype reply =
    ReplyUsage
  | ReplyNoGuild
  | ReplyMisconfigured
  | ReplyNoMember
  | ReplySearching int string
  | ReplyNoMatch string int string
  | ReplyBanned string string
  | ReplyRoleFailed string
  | ReplyVerified string string string string
  | ReplyMemberNotFound string
  | ReplyLinked string string string

datatype logline =
    LogRoleAdded
  | LogRoleFailed
  | LogNicknameSet string
  | LogNicknameFailed
  | LogStatusBanned
  | LogNoDiscordLine
  | LogMemberFetchFailed
  | LogMemberNotFound
  | LogRoleNotFound
  | LogAlreadyHasRole

datatype effect =
    Reply reply
  | RolesAdd bool
  | SetNickname string bool
  | Log logline

record verifyEnv =
  guildFound :: bool
  modmailChannel :: "(nat option \<Rightarrow> message list) option"
  isTextBased :: bool
  invoker :: "member option"
  clock :: int
  LOOKBACK_HOURS :: int
  roleAddSucceeds :: bool
  nicknameSucceeds :: bool

text \<open>The argument of the command, with one leading \<open>u/\<close> taken off.\<close>

definition redditNameArg :: "string \<Rightarrow> string" where
  "redditNameArg arg = (if startsWith (toLowerCase arg) ''u/'' then drop 2 arg else arg)"

text \<open>The part of \<open>handleVerifyCommand\<close> after a match: role, nickname, reply.\<close>

definition applyMatch :: "verifyEnv \<Rightarrow> member \<Rightarrow> match \<Rightarrow> effect list" where
  "applyMatch env mem m =
     (let p = fst m in
      if isBanned (status p) then [Reply (ReplyBanned (redditName p) (status p))]
      else if \<not> roleAddSucceeds env then
        [RolesAdd False, Log LogRoleFailed, Reply (ReplyRoleFailed (redditName p))]
      else
        (let newNick = redditName p @ '' | '' @ username mem
         in [RolesAdd True, Log LogRoleAdded]
            @ (if nicknameSucceeds env
               then [SetNickname newNick True, Log (LogNicknameSet newNick)]
               else [SetNickname newNick False, Log LogNicknameFailed])
            @ [Reply (ReplyVerified (redditName p) (username mem) (discordName p)
                        (''https://www.reddit.com/u/'' @ redditName p))]))"

definition handleVerifyCommand :: "verifyEnv \<Rightarrow> string \<Rightarrow> effect list" where
  "handleVerifyCommand env messageContent =
     (case splitWs (trim messageContent) of
        [] \<Rightarrow> [Reply ReplyUsage]
      | [_] \<Rightarrow> [Reply ReplyUsage]
      | _ # arg # _ \<Rightarrow>
          (let redditNameInput = redditNameArg arg
           in if \<not> guildFound env then [Reply ReplyNoGuild]
              else
                (case modmailChannel env of
                   None \<Rightarrow> [Reply ReplyMisconfigured]
                 | Some fetch \<Rightarrow>
                     if \<not> isTextBased env then [Reply ReplyMisconfigured]
                     else
                       (case invoker env of
                          None \<Rightarrow> [Reply ReplyNoMember]
                        | Some mem \<Rightarrow>
                            Reply (ReplySearching (LOOKBACK_HOURS env) redditNameInput)
                            # (case findMatchingModmail fetch (clock env) redditNameInput mem
                                      (LOOKBACK_HOURS env) of
                                 None \<Rightarrow>
                                   [Reply (ReplyNoMatch redditNameInput (LOOKBACK_HOURS env)
                                             (username mem))]
                               | Some m \<Rightarrow> applyMatch env mem m)))))"

section \<open>The watcher script (links on every forwarded modmail)\<close>

subsection \<open>Text and formatting\<close>

text \<open>\<open>getMessageText(message)\<close>: content, then each embed's title, description and fields.\<close>

definition truthy :: "string \<Rightarrow> string list" where
  "truthy s = (if s \<noteq> [] then [s] else [])"

definition embedText :: "embed \<Rightarrow> string list" where
  "embedText e =
     truthy (title e) @ truthy (description e)
     @ concat (map (\<lambda>(name, value). truthy name @ truthy value) (embedFields e))"

definition getMessageText :: "message \<Rightarrow> string" where
  "getMessageText m = joinLines (truthy (content m) @ concat (map embedText (embeds m)))"

text \<open>
  \<open>/\[([^\]]+)\]\([^)]*\)/\<close>, anchored: the label and the input after the match. The
  label runs to the first \<open>]\<close>, which \<open>(\<close> must follow; the url runs to the first
  \<open>)\<close>.
\<close>

definition linkAt :: "string \<Rightarrow> (string \<times> string) option" where
  "linkAt s =
     (case s of
        [] \<Rightarrow> None
      | c # r \<Rightarrow>
          if c \<noteq> CHR ''['' then None
          else
            (let label = takeWhile (\<lambda>x. x \<noteq> CHR '']'') r;
                 r1 = dropWhile (\<lambda>x. x \<noteq> CHR '']'') r
             in if label = [] \<or> \<not> startsWith r1 '']('' then None
                else
                  (case dropWhile (\<lambda>x. x \<noteq> CHR '')'') (drop 2 r1) of
                     [] \<Rightarrow> None
                   | _ # rest \<Rightarrow> Some (label, rest))))"

lemma linkAt_shorter: "linkAt s = Some (label, rest) \<Longrightarrow> length rest < length s"
proof -
  assume a: "linkAt s = Some (label, rest)"
  then obtain c r where s: "s = c # r" by (cases s) (auto simp: linkAt_def)
  let ?r1 = "dropWhile (\<lambda>x. x \<noteq> CHR '']'') r"
  let ?r2 = "dropWhile (\<lambda>x. x \<noteq> CHR '')'') (drop 2 ?r1)"
  from a s obtain d where "?r2 = d # rest"
    by (auto simp: linkAt_def Let_def split: if_splits list.splits)
  then have "length rest < length ?r2" by simp
  also have "\<dots> \<le> length (drop 2 ?r1)" by (rule length_dropWhile_le)
  also have "\<dots> \<le> length ?r1" by simp
  also have "\<dots> \<le> length r" by (rule length_dropWhile_le)
  finally show ?thesis using s by simp
qed

text \<open>\<open>text.replace(/\[([^\]]+)\]\([^)]*\)/g, '$1')\<close>\<close>

function unwrapLinks :: "string \<Rightarrow> string" where
  "unwrapLinks [] = []"
| "unwrapLinks (c # r) =
     (case linkAt (c # r) of
        Some (label, rest) \<Rightarrow> label @ unwrapLinks rest
      | None \<Rightarrow> c # unwrapLinks r)"
  by pat_completeness auto
termination
  by (relation "measure length") (auto dest: linkAt_shorter)

text \<open>\<open>text.replace(/\*\*/g, '')\<close>\<close>

fun removeBold :: "string \<Rightarrow> string" where
  "removeBold (a # b # s) =
     (if a = CHR ''*'' \<and> b = CHR ''*'' then removeBold s else a # removeBold (b # s))"
| "removeBold s = s"

text \<open>\<open>text.replace(/`/g, '')\<close>\<close>

definition removeBackticks :: "string \<Rightarrow> string" where
  "removeBackticks s = filter (\<lambda>c. c \<noteq> CHR 0x60) s"

definition stripFormatting :: "string \<Rightarrow> string" where
  "stripFormatting text =
     (if text = [] then [] else trim (removeBackticks (removeBold (unwrapLinks text))))"

subsection \<open>The fields of a forwarded modmail\<close>

text \<open>
  \<open>\s*([^\n\r]+)\<close>, anchored: the capture. After the white space the capture runs to
  the next line break. When white space reaches the end of the input, \<open>\s*\<close> gives
  characters back until the capture can start: at the last one that is no line break.
\<close>

definition restOfLine :: "string \<Rightarrow> string option" where
  "restOfLine s =
     (let r = dropWhile isSpace s
      in if r \<noteq> [] then Some (takeWhile (\<lambda>c. \<not> isLineBreak c) r)
         else (case dropWhile isLineBreak (rev s) of
                 [] \<Rightarrow> None
               | c # _ \<Rightarrow> Some [c]))"

text \<open>\<open>content.match(/Label:\s*([^\n\r]+)/i)\<close>: the capture of the first match.\<close>

definition labelledValue :: "string \<Rightarrow> string \<Rightarrow> string option" where
  "labelledValue label text = searchFrom (\<lambda>s. Option.bind (lit label s) restOfLine) text"

text \<open>\<open>content.match(/^([^\n\r]+)/)\<close>\<close>

definition firstLine :: "string \<Rightarrow> string option" where
  "firstLine text =
     (let l = takeWhile (\<lambda>c. \<not> isLineBreak c) text
      in if l = [] then None else Some l)"

text \<open>\<open>\s*([^\s]+)\<close>, anchored: the captured token.\<close>

definition token :: "string \<Rightarrow> string option" where
  "token s =
     (let r = dropWhile isSpace s
      in if r = [] then None else Some (takeWhile (\<lambda>c. \<not> isSpace c) r))"

text \<open>
  \<open>content.match(/Body:\s*Phrase:\s*([^\s]+)/i)\<close> for the two phrases
  \<open>Verify Discord\<close> and \<open>Register Discord with Discord ID\<close>.
\<close>

definition bodyPhrase :: "string \<Rightarrow> string \<Rightarrow> string option" where
  "bodyPhrase phrase text =
     searchFrom
       (\<lambda>s. Option.bind (lit ''Body:'' s) (\<lambda>r.
            Option.bind (lit phrase (dropWhile isSpace r)) token))
       text"

text \<open>Step 0 of the handler: is there a Status value that contains \<open>banned\<close>?\<close>

definition statusBanned :: "string \<Rightarrow> bool" where
  "statusBanned text =
     (case labelledValue ''Status:'' text of
        None \<Rightarrow> False
      | Some v \<Rightarrow> includesStr (toLowerCase (trim v)) ''banned'')"

text \<open>Step 1: \<open>redditUser || fallbackRedditUser || 'RedditUser'\<close>\<close>

definition redditUser :: "string \<Rightarrow> string" where
  "redditUser text =
     (case labelledValue ''Participant:'' text of
        Some v \<Rightarrow> trim v
      | None \<Rightarrow>
          (case labelledValue ''Author:'' text of
             Some v \<Rightarrow> trim v
           | None \<Rightarrow> []))"

definition fallbackRedditUser :: "string \<Rightarrow> string" where
  "fallbackRedditUser text =
     (case firstLine text of
        Some l \<Rightarrow> trim l
      | None \<Rightarrow> [])"

definition finalRedditUser :: "string \<Rightarrow> string" where
  "finalRedditUser text =
     (if redditUser text \<noteq> [] then redditUser text
      else if fallbackRedditUser text \<noteq> [] then fallbackRedditUser text
      else ''RedditUser'')"

text \<open>Step 2: the Discord name, \<open>Verify Discord\<close> before \<open>Register Discord\<close>.\<close>

definition watcherDiscordName :: "string \<Rightarrow> string option" where
  "watcherDiscordName text =
     (case bodyPhrase ''Verify Discord:'' text of
        Some v \<Rightarrow> Some (trim v)
      | None \<Rightarrow>
          (case bodyPhrase ''Register Discord with Discord ID:'' text of
             Some v \<Rightarrow> Some (trim v)
           | None \<Rightarrow> None))"

subsection \<open>The handler\<close>

record watcherEnv =
  inGuild :: bool
  inWatchChannel :: bool
  fromSelf :: bool
  membersCache :: "member list"
  membersFetch :: "string \<Rightarrow> member list option"
  roleName :: "string option"
  watcherRoleAddSucceeds :: bool
  watcherNicknameSucceeds :: bool

definition nameMatches :: "string \<Rightarrow> member \<Rightarrow> bool" where
  "nameMatches dn m \<longleftrightarrow>
     toLowerCase (username m) = toLowerCase dn
     \<or> (displayName m \<noteq> [] \<and> toLowerCase (displayName m) = toLowerCase dn)"

text \<open>
  Step 3: the member from the cache, else from a fetch by query (\<open>None\<close> of the fetch is
  a throw, which is logged), where the first fetched member stands in when none matches.
\<close>

definition findTargetMember :: "watcherEnv \<Rightarrow> string \<Rightarrow> member option \<times> effect list" where
  "findTargetMember env dn =
     (case find (nameMatches dn) (membersCache env) of
        Some m \<Rightarrow> (Some m, [])
      | None \<Rightarrow>
          (case membersFetch env dn of
             None \<Rightarrow> (None, [Log LogMemberFetchFailed])
           | Some fetched \<Rightarrow>
               (case find (nameMatches dn) fetched of
                  Some m \<Rightarrow> (Some m, [])
                | None \<Rightarrow>
                    (case fetched of
                       [] \<Rightarrow> (None, [])
                     | m # _ \<Rightarrow> (Some m, [])))))"

text \<open>Steps 4 to 6 and the reply, for the member that was found.\<close>

definition linkMember :: "watcherEnv \<Rightarrow> string \<Rightarrow> string \<Rightarrow> member \<Rightarrow> effect list" where
  "linkMember env ru dn target =
     (case roleName env of
        None \<Rightarrow> [Log LogRoleNotFound]
      | Some rname \<Rightarrow>
          (let newNick = ru @ '' | '' @ dn
           in (if \<not> hasRole target then
                 (if watcherRoleAddSucceeds env then [RolesAdd True, Log LogRoleAdded]
                  else [RolesAdd False, Log LogRoleFailed])
               else [Log LogAlreadyHasRole])
              @ (if watcherNicknameSucceeds env
                 then [SetNickname newNick True, Log (LogNicknameSet newNick)]
                 else [SetNickname newNick False, Log LogNicknameFailed])
              @ [Reply (ReplyLinked ru (tag target) rname)]))"

definition onMessageCreate :: "watcherEnv \<Rightarrow> message \<Rightarrow> effect list" where
  "onMessageCreate env msg =
     (if \<not> inGuild env then []
      else if \<not> inWatchChannel env then []
      else if fromSelf env then []
      else
        (let text = stripFormatting (getMessageText msg)
         in if statusBanned text then [Log LogStatusBanned]
            else
              (case watcherDiscordName text of
                 None \<Rightarrow> [Log LogNoDiscordLine]
               | Some dn \<Rightarrow>
                   if dn = [] then [Log LogNoDiscordLine]
                   else
                     (case findTargetMember env dn of
                        (None, logs) \<Rightarrow>
                          logs @ [Log LogMemberNotFound, Reply (ReplyMemberNotFound dn)]
                      | (Some target, logs) \<Rightarrow>
                          logs @ linkMember env (finalRedditUser text) dn target))))"

section \<open>Properties\<close>

subsection \<open>The parser on the documented modmail\<close>

text \<open>
  C8: the parser applied to the text \<open>Author: Hermit_Toad\<close>, newline,
  \<open>Body: Register Discord with Discord ID: pikachucatcher88\<close>, newline,
  \<open>Status: Active\<close> returns exactly the record with Reddit name \<open>Hermit_Toad\<close>,
  Discord name \<open>pikachucatcher88\<close> and status \<open>Active\<close>.
\<close>

theorem parse_scenario1:
  "parseModmailMessageFromFullText
     (''Author: Hermit_Toad'' @ [newline]
      @ ''Body: Register Discord with Discord ID: pikachucatcher88'' @ [newline]
      @ ''Status: Active'')
   = Some \<lparr>redditName = ''Hermit_Toad'', discordName = ''pikachucatcher88'',
             status = ''Active''\<rparr>"
  by code_simp

subsection \<open>The scan as a search in a window of the history\<close>

text \<open>
  The channel's history is a list of messages, newest first. A page of it is what
  \<open>messages.fetch({ limit: 100, before })\<close> gives: the 100 newest messages with an id
  below the cursor. Ids are snowflakes, which grow with time.
\<close>

definition fetchPage :: "message list \<Rightarrow> nat option \<Rightarrow> message list" where
  "fetchPage history before =
     take 100 (case before of
                 None \<Rightarrow> history
               | Some b \<Rightarrow> filter (\<lambda>m. msgId m < b) history)"

text \<open>The order of a history: ids fall along it, and so do creation times.\<close>

definition idsDescending :: "message list \<Rightarrow> bool" where
  "idsDescending history \<longleftrightarrow> sorted_wrt (\<lambda>a b. msgId b < msgId a) history"

definition newestFirst :: "message list \<Rightarrow> bool" where
  "newestFirst history \<longleftrightarrow>
     idsDescending history
     \<and> sorted_wrt (\<lambda>a b. createdTimestamp b \<le> createdTimestamp a) history"

text \<open>
  The checks of the loop body on one message: it parses, its status is not banned, its
  Reddit name is the target and its Discord name is one of the member's names.
\<close>

definition matchOf :: "string \<Rightarrow> string \<Rightarrow> string \<Rightarrow> message \<Rightarrow> match option" where
  "matchOf targetReddit uname gname msg =
     (case parseModmailMessageFromFullText (buildFullTextFromMessage msg) of
        None \<Rightarrow> None
      | Some p \<Rightarrow>
          if isBanned (status p) then None
          else if normalize (redditName p) \<noteq> targetReddit then None
          else if \<not> discordMatches (normalize (discordName p)) uname gname then None
          else Some (p, msg))"

text \<open>The first result along a list.\<close>

fun firstSome :: "('a \<Rightarrow> 'b option) \<Rightarrow> 'a list \<Rightarrow> 'b option" where
  "firstSome f [] = None"
| "firstSome f (x # xs) = (case f x of Some y \<Rightarrow> Some y | None \<Rightarrow> firstSome f xs)"

text \<open>
  The messages a scan gets to: those within the cap on the count, up to the first one
  older than the cutoff.
\<close>

definition window :: "int \<Rightarrow> nat \<Rightarrow> message list \<Rightarrow> message list" where
  "window cutoff scanned history =
     takeWhile (\<lambda>m. \<not> createdTimestamp m < cutoff) (take (MAX_SCANNED - scanned) history)"

lemma scanBatch_step:
  "scanBatch cutoff tr un gn scanned (msg # batch) =
     (if scanned + 1 > MAX_SCANNED then Return None
      else if createdTimestamp msg < cutoff then Return None
      else (case matchOf tr un gn msg of
              Some r \<Rightarrow> Return (Some r)
            | None \<Rightarrow> scanBatch cutoff tr un gn (scanned + 1) batch))"
  by (simp add: matchOf_def split: option.splits)

lemma scanBatch_window:
  "scanBatch cutoff tr un gn scanned xs =
     (case firstSome (matchOf tr un gn) (window cutoff scanned xs) of
        Some r \<Rightarrow> Return (Some r)
      | None \<Rightarrow>
          if length (window cutoff scanned xs) < length xs then Return None
          else Continue (scanned + length xs))"
proof (induction xs arbitrary: scanned)
  case Nil
  then show ?case by (simp add: window_def)
next
  case (Cons msg xs)
  show ?case
  proof (cases "scanned + 1 > MAX_SCANNED")
    case True
    then have "window cutoff scanned (msg # xs) = []" by (simp add: window_def)
    with True show ?thesis by (simp only: scanBatch_step) simp
  next
    case cap: False
    then obtain k where k: "MAX_SCANNED - scanned = Suc k" "MAX_SCANNED - Suc scanned = k"
      by (cases "MAX_SCANNED - scanned") auto
    show ?thesis
    proof (cases "createdTimestamp msg < cutoff")
      case True
      then have "window cutoff scanned (msg # xs) = []" by (simp add: window_def k)
      with True cap show ?thesis by (simp only: scanBatch_step) simp
    next
      case False
      then have w: "window cutoff scanned (msg # xs) = msg # window cutoff (scanned + 1) xs"
        by (simp add: window_def k)
      show ?thesis
        using cap False Cons.IH [of "scanned + 1"]
        by (simp only: scanBatch_step w) (simp split: option.splits)
    qed
  qed
qed

lemma scanBatch_append:
  "scanBatch cutoff tr un gn scanned (xs @ ys) =
     (case scanBatch cutoff tr un gn scanned xs of
        Return r \<Rightarrow> Return r
      | Continue n \<Rightarrow> scanBatch cutoff tr un gn n ys)"
proof (induction xs arbitrary: scanned)
  case Nil
  then show ?case by simp
next
  case (Cons msg xs)
  show ?case
    using Cons.IH [of "scanned + 1"]
    by (simp only: append_Cons scanBatch_step) (simp split: option.splits)
qed

lemma filter_older:
  assumes "idsDescending (pre @ rest)" and "pre \<noteq> []"
  shows "filter (\<lambda>m. msgId m < msgId (last pre)) (pre @ rest) = rest"
proof -
  from assms(1) have sp: "sorted_wrt (\<lambda>a b. msgId b < msgId a) pre"
    and sr: "sorted_wrt (\<lambda>a b. msgId b < msgId a) rest"
    and cross: "\<forall>a\<in>set pre. \<forall>b\<in>set rest. msgId b < msgId a"
    by (auto simp: idsDescending_def sorted_wrt_append)
  from assms(2) obtain ys y where pre: "pre = ys @ [y]" by (cases pre rule: rev_cases) auto
  with sp have "\<forall>a\<in>set ys. msgId y < msgId a" by (auto simp: sorted_wrt_append)
  then have "\<forall>a\<in>set pre. \<not> msgId a < msgId (last pre)" using pre by auto
  then have "filter (\<lambda>m. msgId m < msgId (last pre)) pre = []" by (simp add: filter_empty_conv)
  moreover from cross assms(2) have "\<forall>b\<in>set rest. msgId b < msgId (last pre)" by simp
  then have "filter (\<lambda>m. msgId m < msgId (last pre)) rest = rest" by (simp add: filter_id_conv)
  ultimately show ?thesis by simp
qed

lemma fetchPage_cursor:
  assumes "idsDescending (pre @ rest)"
    and "(pre = [] \<and> lastId = None) \<or> (pre \<noteq> [] \<and> lastId = Some (msgId (last pre)))"
  shows "fetchPage (pre @ rest) lastId = take 100 rest"
  using assms filter_older [OF assms(1)]
proof (cases "pre = []")
  case True
  with assms(2) show ?thesis by (simp add: fetchPage_def)
next
  case False
  with assms(2) filter_older [OF assms(1)] show ?thesis by (simp add: fetchPage_def)
qed

lemma scanLoop_fetchPage:
  assumes "idsDescending (pre @ rest)"
    and "(pre = [] \<and> lastId = None) \<or> (pre \<noteq> [] \<and> lastId = Some (msgId (last pre)))"
  shows "scanLoop (fetchPage (pre @ rest)) cutoff tr un gn lastId scanned =
           (case scanBatch cutoff tr un gn scanned rest of
              Return r \<Rightarrow> r
            | Continue n \<Rightarrow> None)"
  using assms
proof (induction "length rest" arbitrary: pre rest lastId scanned rule: less_induct)
  case less
  note page = fetchPage_cursor [OF less.prems]
  show ?case
  proof (cases "rest = []")
    case True
    with page show ?thesis by (subst scanLoop.simps) simp
  next
    case False
    let ?batch = "take 100 rest"
    let ?tail = "drop 100 rest"
    from False have ne: "?batch \<noteq> []" by simp
    have split: "scanBatch cutoff tr un gn scanned rest =
        (case scanBatch cutoff tr un gn scanned ?batch of
           Return r \<Rightarrow> Return r
         | Continue n \<Rightarrow> scanBatch cutoff tr un gn n ?tail)"
      using scanBatch_append [of cutoff tr un gn scanned ?batch ?tail] by simp
    show ?thesis
    proof (cases "scanBatch cutoff tr un gn scanned ?batch")
      case (Return r)
      with page ne split show ?thesis by (subst scanLoop.simps) simp
    next
      case (Continue n)
      have shorter: "length ?tail < length rest" using False by simp
      have hist: "pre @ rest = (pre @ ?batch) @ ?tail" by simp
      have desc: "idsDescending ((pre @ ?batch) @ ?tail)" using less.prems(1) by simp
      have cur: "(pre @ ?batch = [] \<and> Some (msgId (last ?batch)) = None)
                 \<or> (pre @ ?batch \<noteq> [] \<and> Some (msgId (last ?batch)) = Some (msgId (last (pre @ ?batch))))"
        using ne by simp
      have "scanLoop (fetchPage ((pre @ ?batch) @ ?tail)) cutoff tr un gn (Some (msgId (last ?batch))) n =
              (case scanBatch cutoff tr un gn n ?tail of Return r \<Rightarrow> r | Continue n \<Rightarrow> None)"
        by (rule less.hyps [OF shorter desc cur])
      then have rec: "scanLoop (fetchPage (pre @ rest)) cutoff tr un gn (Some (msgId (last ?batch))) n =
              (case scanBatch cutoff tr un gn n ?tail of Return r \<Rightarrow> r | Continue n \<Rightarrow> None)"
        by simp
      show ?thesis
        using page ne split Continue rec by (subst scanLoop.simps) simp
    qed
  qed
qed

lemma findMatchingModmail_window:
  assumes "idsDescending history"
  shows "findMatchingModmail (fetchPage history) now input mem hours =
           firstSome (matchOf (normalize input) (normalize (username mem)) (normalize (globalName mem)))
             (window (now - hours * 60 * 60 * 1000) 0 history)"
proof -
  have "idsDescending ([] @ history)" using assms by simp
  from scanLoop_fetchPage [OF this, of None]
  show ?thesis
    by (simp add: findMatchingModmail_def scanBatch_window split: option.splits)
qed

subsection \<open>The newest match\<close>

lemma matchOf_Some:
  assumes "matchOf tr un gn m = Some (p, msg)"
  shows "msg = m"
    and "parseModmailMessageFromFullText (buildFullTextFromMessage m) = Some p"
    and "\<not> isBanned (status p)"
    and "normalize (redditName p) = tr"
    and "discordMatches (normalize (discordName p)) un gn"
  using assms by (auto simp: matchOf_def split: option.splits if_splits)

lemma firstSome_Some:
  "firstSome f xs = Some r \<Longrightarrow>
     \<exists>pre m rest. xs = pre @ m # rest \<and> f m = Some r \<and> (\<forall>x\<in>set pre. f x = None)"
proof (induction xs)
  case Nil
  then show ?case by simp
next
  case (Cons x xs)
  show ?case
  proof (cases "f x")
    case None
    with Cons obtain pre m rest
      where "xs = pre @ m # rest" "f m = Some r" "\<forall>x\<in>set pre. f x = None" by auto
    with None have "x # xs = (x # pre) @ m # rest \<and> f m = Some r \<and> (\<forall>y\<in>set (x # pre). f y = None)"
      by simp
    then show ?thesis by blast
  next
    case (Some y)
    with Cons.prems have "x # xs = [] @ x # xs \<and> f x = Some r \<and> (\<forall>y\<in>set []. f y = None)"
      by simp
    then show ?thesis by blast
  qed
qed

lemma firstSome_first:
  "\<forall>x\<in>set pre. f x = None \<Longrightarrow> f m = Some r \<Longrightarrow> firstSome f (pre @ m # rest) = Some r"
  by (induction pre) auto

lemma window_prefix: "\<exists>n. window cutoff scanned history = take n history"
proof -
  let ?t = "take (MAX_SCANNED - scanned) history"
  have "window cutoff scanned history
          = take (length (window cutoff scanned history)) ?t"
    unfolding window_def by (rule takeWhile_eq_take)
  then have "window cutoff scanned history
          = take (min (length (window cutoff scanned history)) (MAX_SCANNED - scanned)) history"
    by simp
  then show ?thesis ..
qed

lemma window_recent: "m \<in> set (window cutoff scanned history) \<Longrightarrow> \<not> createdTimestamp m < cutoff"
  unfolding window_def by (auto dest: set_takeWhileD)

lemma window_old:
  assumes "createdTimestamp old < cutoff"
  shows "window cutoff scanned (pre @ old # rest) = window cutoff scanned pre"
proof -
  have "takeWhile (\<lambda>m. \<not> createdTimestamp m < cutoff) (take n (pre @ old # rest))
          = takeWhile (\<lambda>m. \<not> createdTimestamp m < cutoff) (take n pre)" for n
  proof (induction pre arbitrary: n)
    case Nil
    with assms show ?case by (cases n) auto
  next
    case (Cons a pre)
    then show ?case by (cases n) auto
  qed
  then show ?thesis unfolding window_def .
qed

text \<open>
  C1: for every query the matcher returns the newest matching record. On a history that
  is newest first, \<open>findMatchingModmail\<close> returns the first message, in that order, among
  those it scans (the first \<open>MAX_SCANNED\<close>, up to the first one older than the cutoff)
  that parses and passes the banned, Reddit name and Discord name checks; what follows
  that message plays no part. Of two matching messages with different timestamps in that
  window the newer is the one returned: no matching message of the window is newer than
  the returned one.
\<close>

theorem findMatchingModmail_newest:
  assumes "newestFirst history"
  shows "findMatchingModmail (fetchPage history) now input mem hours
           = firstSome (matchOf (normalize input) (normalize (username mem)) (normalize (globalName mem)))
               (window (now - hours * 60 * 60 * 1000) 0 history)
         \<and> (\<forall>r m. findMatchingModmail (fetchPage history) now input mem hours = Some r
                  \<and> m \<in> set (window (now - hours * 60 * 60 * 1000) 0 history)
                  \<and> matchOf (normalize input) (normalize (username mem)) (normalize (globalName mem)) m \<noteq> None
                \<longrightarrow> createdTimestamp m \<le> createdTimestamp (snd r))
         \<and> (\<forall>pre m rest r.
                window (now - hours * 60 * 60 * 1000) 0 history = pre @ m # rest
                \<and> (\<forall>x\<in>set pre. matchOf (normalize input) (normalize (username mem))
                                    (normalize (globalName mem)) x = None)
                \<and> matchOf (normalize input) (normalize (username mem)) (normalize (globalName mem)) m
                    = Some r
                \<longrightarrow> findMatchingModmail (fetchPage history) now input mem hours = Some r)"
proof -
  let ?f = "matchOf (normalize input) (normalize (username mem)) (normalize (globalName mem))"
  let ?w = "window (now - hours * 60 * 60 * 1000) 0 history"
  from assms have ids: "idsDescending history"
    and ts: "sorted_wrt (\<lambda>a b. createdTimestamp b \<le> createdTimestamp a) history"
    by (simp_all add: newestFirst_def)
  have eq: "findMatchingModmail (fetchPage history) now input mem hours = firstSome ?f ?w"
    by (rule findMatchingModmail_window [OF ids])
  obtain n where n: "?w = take n history" using window_prefix by blast
  have sw: "sorted_wrt (\<lambda>a b. createdTimestamp b \<le> createdTimestamp a) ?w"
    unfolding n using ts by (rule sorted_wrt_take)
  have newer: "createdTimestamp m \<le> createdTimestamp (snd r)"
    if r: "firstSome ?f ?w = Some r" and m: "m \<in> set ?w" and fm: "?f m \<noteq> None" for r m
  proof -
    from firstSome_Some [OF r] obtain pre m0 rest
      where w: "?w = pre @ m0 # rest" and m0: "?f m0 = Some r" and pre: "\<forall>x\<in>set pre. ?f x = None"
      by blast
    from m0 have r0: "snd r = m0" using matchOf_Some(1) [of _ _ _ m0 "fst r" "snd r"] by simp
    from m w pre fm have "m = m0 \<or> m \<in> set rest" by auto
    moreover from sw w have "\<forall>x\<in>set rest. createdTimestamp x \<le> createdTimestamp m0"
      by (simp add: sorted_wrt_append)
    ultimately show ?thesis using r0 by auto
  qed
  have first: "firstSome ?f ?w = Some r"
    if "?w = pre @ m # rest" and "\<forall>x\<in>set pre. ?f x = None" and "?f m = Some r" for pre m rest r
    using that by (simp add: firstSome_first)
  show ?thesis using eq newer first by simp
qed

text \<open>Two modmails for one user, and one from before the lookback window.\<close>

definition exampleText :: "string \<Rightarrow> string \<Rightarrow> string \<Rightarrow> string" where
  "exampleText author discord st =
     ''Author: '' @ author @ [newline]
     @ ''Body: Register Discord with Discord ID: '' @ discord @ [newline]
     @ ''Status: '' @ st"

definition exampleMember :: member where
  "exampleMember =
     \<lparr>username = ''pikachucatcher88'', globalName = '''', displayName = ''Pika'',
      tag = ''pikachucatcher88#0'', hasRole = False\<rparr>"

definition newerModmail :: message where
  "newerModmail =
     \<lparr>msgId = 3, createdTimestamp = 90000000,
      content = exampleText ''Hermit_Toad'' ''PikachuCatcher88'' ''Active'', embeds = []\<rparr>"

definition olderModmail :: message where
  "olderModmail =
     \<lparr>msgId = 2, createdTimestamp = 80000000,
      content = exampleText ''hermit_toad'' ''pikachucatcher88'' ''Active'', embeds = []\<rparr>"

definition expiredModmail :: message where
  "expiredModmail =
     \<lparr>msgId = 1, createdTimestamp = 10000000,
      content = exampleText ''Hermit_Toad'' ''pikachucatcher88'' ''Active'', embeds = []\<rparr>"

theorem findMatchingModmail_newest_witness:
  "newestFirst [newerModmail, olderModmail]
   \<and> findMatchingModmail (fetchPage [newerModmail, olderModmail]) 100000000 ''Hermit_Toad''
        exampleMember 12
      = Some (\<lparr>redditName = ''Hermit_Toad'', discordName = ''PikachuCatcher88'',
                status = ''Active''\<rparr>, newerModmail)"
proof -
  have n: "newestFirst [newerModmail, olderModmail]"
    by (simp add: newestFirst_def idsDescending_def newerModmail_def olderModmail_def)
  have "firstSome
          (matchOf (normalize ''Hermit_Toad'') (normalize (username exampleMember))
             (normalize (globalName exampleMember)))
          (window (100000000 - 12 * 60 * 60 * 1000) 0 [newerModmail, olderModmail])
        = Some (\<lparr>redditName = ''Hermit_Toad'', discordName = ''PikachuCatcher88'',
                  status = ''Active''\<rparr>, newerModmail)"
    by code_simp
  with findMatchingModmail_newest [OF n, of 100000000 "''Hermit_Toad''" exampleMember 12] n
  show ?thesis by simp
qed

subsection \<open>What a returned match satisfies\<close>

lemma scanBatch_Return_Some:
  "scanBatch cutoff tr un gn scanned xs = Return (Some r) \<Longrightarrow>
     \<exists>m\<in>set xs. matchOf tr un gn m = Some r \<and> \<not> createdTimestamp m < cutoff"
proof (induction xs arbitrary: scanned)
  case Nil
  then show ?case by simp
next
  case (Cons msg xs)
  from Cons.prems show ?case
    by (simp only: scanBatch_step) (auto split: if_splits option.splits dest: Cons.IH)
qed

lemma scanLoop_Some:
  "scanLoop fetch cutoff tr un gn lastId scanned = Some r \<Longrightarrow>
     \<exists>m. matchOf tr un gn m = Some r \<and> \<not> createdTimestamp m < cutoff"
proof (induction fetch cutoff tr un gn lastId scanned rule: scanLoop.induct)
  case (1 fetch cutoff tr un gn lastId scanned)
  from "1.prems" have ne: "fetch lastId \<noteq> []"
    by (subst (asm) scanLoop.simps) (auto split: if_splits)
  show ?case
  proof (cases "scanBatch cutoff tr un gn scanned (fetch lastId)")
    case (Return x)
    with "1.prems" ne have "x = Some r" by (subst (asm) scanLoop.simps) simp
    with Return scanBatch_Return_Some show ?thesis by blast
  next
    case (Continue n)
    with "1.prems" ne
    have "scanLoop fetch cutoff tr un gn (Some (msgId (last (fetch lastId)))) n = Some r"
      by (subst (asm) scanLoop.simps) simp
    from "1.IH" [OF ne Continue this] show ?thesis .
  qed
qed

lemma isBanned_iff: "isBanned st \<longleftrightarrow> includesStr (toLowerCase st) ''banned''"
  by (cases st) (auto simp: isBanned_def toLowerCase_def)

text \<open>
  C2: whenever the matcher returns a result, whatever the pages fetched, the status of the
  returned record does not contain \<open>banned\<close> in any letter case, its Reddit name equals
  the queried name up to trimming and letter case, its Discord name equals the invoking
  member's username or global name up to trimming and letter case, and it is the record
  parsed from the returned message. So a record with a banned status is never returned,
  even when both names match.
\<close>

theorem match_invariant:
  assumes "findMatchingModmail fetch now input mem hours = Some (p, msg)"
  shows "\<not> includesStr (toLowerCase (status p)) ''banned''
         \<and> normalize (redditName p) = normalize input
         \<and> (normalize (discordName p) = normalize (username mem)
            \<or> normalize (discordName p) = normalize (globalName mem))
         \<and> parseModmailMessageFromFullText (buildFullTextFromMessage msg) = Some p"
proof -
  from assms obtain m
    where m: "matchOf (normalize input) (normalize (username mem)) (normalize (globalName mem)) m
                = Some (p, msg)"
    unfolding findMatchingModmail_def by (blast dest: scanLoop_Some)
  from matchOf_Some [OF m] show ?thesis
    by (auto simp: isBanned_iff discordMatches_def split: if_splits)
qed

theorem match_invariant_witness:
  "findMatchingModmail (fetchPage [newerModmail, olderModmail]) 100000000 ''hermit_toad''
     exampleMember 12
   = Some (\<lparr>redditName = ''Hermit_Toad'', discordName = ''PikachuCatcher88'',
             status = ''Active''\<rparr>, newerModmail)
   \<and> \<not> includesStr (toLowerCase ''Active'') ''banned''
   \<and> normalize ''Hermit_Toad'' = normalize ''hermit_toad''
   \<and> normalize ''PikachuCatcher88'' = normalize (username exampleMember)"
proof -
  have f: "findMatchingModmail (fetchPage [newerModmail, olderModmail]) 100000000 ''hermit_toad''
       exampleMember 12
     = Some (\<lparr>redditName = ''Hermit_Toad'', discordName = ''PikachuCatcher88'',
               status = ''Active''\<rparr>, newerModmail)"
    by code_simp
  have g: "normalize ''PikachuCatcher88'' \<noteq> normalize (globalName exampleMember)"
    by code_simp
  from match_invariant [OF f] f g show ?thesis by simp
qed

subsection \<open>The cutoff\<close>

text \<open>
  C5: a message older than the cutoff is never returned, and the scan stops at the first
  such message: with the history \<open>pre @ old # rest\<close>, where \<open>old\<close> is older than the
  cutoff, the result is the result on \<open>pre\<close> alone, whatever \<open>old\<close> and \<open>rest\<close> hold,
  and a returned message is one of \<open>pre\<close>.
\<close>

theorem scan_boundary:
  assumes "idsDescending (pre @ old # rest)"
    and "createdTimestamp old < now - hours * 60 * 60 * 1000"
  shows "findMatchingModmail (fetchPage (pre @ old # rest)) now input mem hours
           = findMatchingModmail (fetchPage pre) now input mem hours
         \<and> (\<forall>p msg. findMatchingModmail (fetchPage (pre @ old # rest)) now input mem hours
                      = Some (p, msg)
                \<longrightarrow> msg \<in> set pre)
         \<and> (\<forall>fetch p msg. findMatchingModmail fetch now input mem hours = Some (p, msg)
                \<longrightarrow> \<not> createdTimestamp msg < now - hours * 60 * 60 * 1000)"
proof -
  let ?c = "now - hours * 60 * 60 * 1000"
  let ?f = "matchOf (normalize input) (normalize (username mem)) (normalize (globalName mem))"
  from assms(1) have pre: "idsDescending pre"
    by (simp add: idsDescending_def sorted_wrt_append)
  have a: "findMatchingModmail (fetchPage (pre @ old # rest)) now input mem hours
             = firstSome ?f (window ?c 0 pre)"
    using findMatchingModmail_window [OF assms(1)] window_old [OF assms(2)] by simp
  have b: "findMatchingModmail (fetchPage pre) now input mem hours = firstSome ?f (window ?c 0 pre)"
    by (rule findMatchingModmail_window [OF pre])
  have c: "msg \<in> set pre" if "firstSome ?f (window ?c 0 pre) = Some (p, msg)" for p msg
  proof -
    from firstSome_Some [OF that] obtain xs m ys
      where w: "window ?c 0 pre = xs @ m # ys" and m: "?f m = Some (p, msg)" by blast
    from matchOf_Some(1) [OF m] have "msg = m" .
    moreover have "m \<in> set (window ?c 0 pre)" using w by simp
    moreover obtain n where "window ?c 0 pre = take n pre" using window_prefix by blast
    ultimately show ?thesis by (auto dest: in_set_takeD)
  qed
  have d: "\<not> createdTimestamp msg < ?c"
    if "findMatchingModmail fetch now input mem hours = Some (p, msg)" for fetch p msg
  proof -
    from that obtain m where m: "?f m = Some (p, msg)" and r: "\<not> createdTimestamp m < ?c"
      unfolding findMatchingModmail_def by (blast dest: scanLoop_Some)
    from matchOf_Some(1) [OF m] r show ?thesis by simp
  qed
  show ?thesis using a b c d by auto
qed

theorem scan_boundary_witness:
  "idsDescending ([newerModmail] @ expiredModmail # [])
   \<and> createdTimestamp expiredModmail < 100000000 - 12 * 60 * 60 * 1000
   \<and> findMatchingModmail (fetchPage [newerModmail, expiredModmail]) 100000000 ''nobody''
        exampleMember 12 = None
   \<and> findMatchingModmail (fetchPage [expiredModmail]) 100000000 ''Hermit_Toad''
        exampleMember 12 = None"
proof -
  have i: "idsDescending ([newerModmail] @ expiredModmail # [])"
    by (simp add: idsDescending_def newerModmail_def expiredModmail_def)
  have j: "idsDescending ([] @ expiredModmail # [])"
    by (simp add: idsDescending_def)
  have o: "createdTimestamp expiredModmail < 100000000 - 12 * 60 * 60 * 1000"
    by (simp add: expiredModmail_def)
  have e: "findMatchingModmail (fetchPage [newerModmail]) 100000000 ''nobody'' exampleMember 12 = None"
    by code_simp
  have e2: "findMatchingModmail (fetchPage []) 100000000 ''Hermit_Toad'' exampleMember 12 = None"
    by code_simp
  from scan_boundary [OF i o, of "''nobody''" exampleMember]
       scan_boundary [OF j o, of "''Hermit_Toad''" exampleMember] i o e e2
  show ?thesis by simp
qed

subsection \<open>The argument of the verify command\<close>

lemma dropWhile_id: "xs = [] \<or> \<not> P (hd xs) \<Longrightarrow> dropWhile P xs = xs"
  by (cases xs) auto

lemma trim_id:
  assumes "s \<noteq> []" and "\<not> isSpace (hd s)" and "\<not> isSpace (last s)"
  shows "trim s = s"
proof -
  from assms have a: "dropWhile isSpace s = s" by (simp add: dropWhile_id)
  from assms have "rev s \<noteq> []" "\<not> isSpace (hd (rev s))" by (simp_all add: hd_rev)
  then have "dropWhile isSpace (rev s) = rev s" by (simp add: dropWhile_id)
  with a show ?thesis by (simp add: trim_def)
qed

lemma splitWs_word: "\<forall>c\<in>set w. \<not> isSpace c \<Longrightarrow> splitWs w = [w]"
  by (induction w) auto

lemma splitWs_two:
  assumes "\<forall>c\<in>set w. \<not> isSpace c" and "isSpace sp" and "a \<noteq> []" and "\<forall>c\<in>set a. \<not> isSpace c"
  shows "splitWs (w @ sp # a) = [w, a]"
  using assms(1)
proof (induction w)
  case Nil
  from assms(3,4) have "dropWhile isSpace a = a" by (cases a) auto
  with assms show ?case by (simp add: splitWs_word)
next
  case (Cons c w)
  then show ?case by simp
qed

lemma verify_args:
  assumes "a \<noteq> []" and "\<forall>c\<in>set a. \<not> isSpace c"
  shows "splitWs (trim (''!verify '' @ a)) = [''!verify'', a]"
proof -
  from assms have l: "\<not> isSpace (last a)" by simp
  have "trim (''!verify '' @ a) = ''!verify '' @ a"
    using assms l by (intro trim_id) (simp_all add: isSpace_def)
  moreover have "splitWs (''!verify'' @ CHR '' '' # a) = [''!verify'', a]"
    using assms by (intro splitWs_two) (simp_all add: isSpace_def)
  ultimately show ?thesis by simp
qed

lemma handleVerifyCommand_arg:
  assumes "splitWs (trim c1) = [w1, a1]" and "splitWs (trim c2) = [w2, a2]"
    and "redditNameArg a1 = redditNameArg a2"
  shows "handleVerifyCommand env c1 = handleVerifyCommand env c2"
  using assms by (simp add: handleVerifyCommand_def)

lemma redditNameArg_prefixed:
  "redditNameArg (''u/'' @ m) = m" "redditNameArg (''U/'' @ m) = m"
  by (simp_all add: redditNameArg_def startsWith_def toLowerCase_def toLowerChar_def)

lemma findMatchingModmail_not_banned:
  "findMatchingModmail fetch now input mem hours = Some m \<Longrightarrow> \<not> isBanned (status (fst m))"
  unfolding findMatchingModmail_def
  by (cases m) (auto dest!: scanLoop_Some dest: matchOf_Some(3))

lemma handleVerifyCommand_found:
  assumes "splitWs (trim messageContent) = cmd # arg # others"
    and "guildFound env" and "modmailChannel env = Some fetch" and "isTextBased env"
    and "invoker env = Some mem"
    and "findMatchingModmail fetch (clock env) (redditNameArg arg) mem (LOOKBACK_HOURS env) = Some m"
  shows "handleVerifyCommand env messageContent =
           Reply (ReplySearching (LOOKBACK_HOURS env) (redditNameArg arg))
           # (if \<not> roleAddSucceeds env then
                [RolesAdd False, Log LogRoleFailed, Reply (ReplyRoleFailed (redditName (fst m)))]
              else
                [RolesAdd True, Log LogRoleAdded]
                @ (if nicknameSucceeds env
                   then [SetNickname (redditName (fst m) @ '' | '' @ username mem) True,
                         Log (LogNicknameSet (redditName (fst m) @ '' | '' @ username mem))]
                   else [SetNickname (redditName (fst m) @ '' | '' @ username mem) False,
                         Log LogNicknameFailed])
                @ [Reply (ReplyVerified (redditName (fst m)) (username mem) (discordName (fst m))
                            (''https://www.reddit.com/u/'' @ redditName (fst m)))])"
  using assms findMatchingModmail_not_banned [OF assms(6)]
  by (simp add: handleVerifyCommand_def applyMatch_def Let_def)

lemma verify_search:
  assumes n: "n \<noteq> []" "\<forall>c\<in>set n. \<not> isSpace c" "redditNameArg n = n"
    and p: "\<forall>c\<in>set p. \<not> isSpace c" "redditNameArg (p @ n) = n"
    and env: "guildFound env" "modmailChannel env = Some fetch" "isTextBased env"
      "invoker env = Some mem"
  shows "handleVerifyCommand env (''!verify '' @ p @ n) =
           Reply (ReplySearching (LOOKBACK_HOURS env) n)
           # (case findMatchingModmail fetch (clock env) n mem (LOOKBACK_HOURS env) of
                None \<Rightarrow> [Reply (ReplyNoMatch n (LOOKBACK_HOURS env) (username mem))]
              | Some r \<Rightarrow>
                  if \<not> roleAddSucceeds env then
                    [RolesAdd False, Log LogRoleFailed,
                     Reply (ReplyRoleFailed (redditName (fst r)))]
                  else
                    [RolesAdd True, Log LogRoleAdded]
                    @ (if nicknameSucceeds env
                       then [SetNickname (redditName (fst r) @ '' | '' @ username mem) True,
                             Log (LogNicknameSet (redditName (fst r) @ '' | '' @ username mem))]
                       else [SetNickname (redditName (fst r) @ '' | '' @ username mem) False,
                             Log LogNicknameFailed])
                    @ [Reply (ReplyVerified (redditName (fst r)) (username mem)
                                (discordName (fst r))
                                (''https://www.reddit.com/u/'' @ redditName (fst r)))])"
proof -
  have args: "splitWs (trim (''!verify '' @ p @ n)) = [''!verify'', p @ n]"
    using n p by (intro verify_args) auto
  show ?thesis
  proof (cases "findMatchingModmail fetch (clock env) n mem (LOOKBACK_HOURS env)")
    case None
    with args p env show ?thesis by (simp add: handleVerifyCommand_def)
  next
    case (Some r)
    with p have "findMatchingModmail fetch (clock env) (redditNameArg (p @ n)) mem
                   (LOOKBACK_HOURS env) = Some r" by simp
    from handleVerifyCommand_found [OF args env this] p Some show ?thesis by simp
  qed
qed

text \<open>A character of the ASCII range.\<close>

definition isAscii :: "char \<Rightarrow> bool" where
  "isAscii c \<longleftrightarrow> \<not> digit7 c"

text \<open>
  C10: one leading \<open>u/\<close>, in either letter case, is taken off the argument of the verify
  command before the search (exactly one: \<open>u/u/x\<close> becomes \<open>u/x\<close>). For a name \<open>n\<close>
  (a non-empty word of ASCII characters that does not itself start with \<open>u/\<close>) the
  command \<open>!verify u/n\<close> has the outcome of \<open>!verify n\<close> in every environment, and
  where guild, channel and member resolve it announces the search for \<open>n\<close>, searches the
  channel for \<open>n\<close> and ends as that search decides: no match, role failure, or verified.
\<close>

theorem verify_strips_user_prefix:
  "redditNameArg (''u/'' @ m) = m \<and> redditNameArg (''U/'' @ m) = m
   \<and> (n \<noteq> [] \<and> (\<forall>c\<in>set n. isAscii c \<and> \<not> isSpace c)
        \<and> \<not> startsWith (toLowerCase n) ''u/''
      \<longrightarrow> redditNameArg n = n
          \<and> handleVerifyCommand env (''!verify u/'' @ n) = handleVerifyCommand env (''!verify '' @ n)
          \<and> handleVerifyCommand env (''!verify U/'' @ n) = handleVerifyCommand env (''!verify '' @ n)
          \<and> (guildFound env \<and> modmailChannel env = Some fetch \<and> isTextBased env
               \<and> invoker env = Some mem
             \<longrightarrow> handleVerifyCommand env (''!verify u/'' @ n) =
                   Reply (ReplySearching (LOOKBACK_HOURS env) n)
                   # (case findMatchingModmail fetch (clock env) n mem (LOOKBACK_HOURS env) of
                        None \<Rightarrow> [Reply (ReplyNoMatch n (LOOKBACK_HOURS env) (username mem))]
                      | Some r \<Rightarrow>
                          if \<not> roleAddSucceeds env then
                            [RolesAdd False, Log LogRoleFailed,
                             Reply (ReplyRoleFailed (redditName (fst r)))]
                          else
                            [RolesAdd True, Log LogRoleAdded]
                            @ (if nicknameSucceeds env
                               then [SetNickname (redditName (fst r) @ '' | '' @ username mem) True,
                                     Log (LogNicknameSet
                                            (redditName (fst r) @ '' | '' @ username mem))]
                               else [SetNickname (redditName (fst r) @ '' | '' @ username mem) False,
                                     Log LogNicknameFailed])
                            @ [Reply (ReplyVerified (redditName (fst r)) (username mem)
                                        (discordName (fst r))
                                        (''https://www.reddit.com/u/'' @ redditName (fst r)))])))"
proof -
  have same: "handleVerifyCommand env (''!verify '' @ p @ n) = handleVerifyCommand env (''!verify '' @ n)"
    if n: "n \<noteq> []" "\<forall>c\<in>set n. \<not> isSpace c" "redditNameArg n = n"
      and p: "p \<noteq> []" "\<forall>c\<in>set p. \<not> isSpace c" "redditNameArg (p @ n) = n" for p
  proof (rule handleVerifyCommand_arg)
    show "splitWs (trim (''!verify '' @ p @ n)) = [''!verify'', p @ n]"
      using n p by (intro verify_args) auto
    show "splitWs (trim (''!verify '' @ n)) = [''!verify'', n]"
      using n by (intro verify_args) auto
    show "redditNameArg (p @ n) = redditNameArg n" using n p by simp
  qed
  have sp: "\<forall>c\<in>set ''u/''. \<not> isSpace c" "\<forall>c\<in>set ''U/''. \<not> isSpace c"
    by (simp_all add: isSpace_def)
  show ?thesis
  proof (intro conjI impI)
    show "redditNameArg (''u/'' @ m) = m" "redditNameArg (''U/'' @ m) = m"
      by (rule redditNameArg_prefixed)+
  next
    assume h: "n \<noteq> [] \<and> (\<forall>c\<in>set n. isAscii c \<and> \<not> isSpace c)
               \<and> \<not> startsWith (toLowerCase n) ''u/''"
    then show own: "redditNameArg n = n" by (simp add: redditNameArg_def)
    from h own same [of "''u/''"] sp redditNameArg_prefixed [of n]
    show "handleVerifyCommand env (''!verify u/'' @ n) = handleVerifyCommand env (''!verify '' @ n)"
      by simp
    from h own same [of "''U/''"] sp redditNameArg_prefixed [of n]
    show "handleVerifyCommand env (''!verify U/'' @ n) = handleVerifyCommand env (''!verify '' @ n)"
      by simp
    assume e: "guildFound env \<and> modmailChannel env = Some fetch \<and> isTextBased env
               \<and> invoker env = Some mem"
    from h own e verify_search [of n "''u/''" env fetch mem] sp(1) redditNameArg_prefixed(1) [of n]
    show "handleVerifyCommand env (''!verify u/'' @ n) =
            Reply (ReplySearching (LOOKBACK_HOURS env) n)
            # (case findMatchingModmail fetch (clock env) n mem (LOOKBACK_HOURS env) of
                 None \<Rightarrow> [Reply (ReplyNoMatch n (LOOKBACK_HOURS env) (username mem))]
               | Some r \<Rightarrow>
                   if \<not> roleAddSucceeds env then
                     [RolesAdd False, Log LogRoleFailed,
                      Reply (ReplyRoleFailed (redditName (fst r)))]
                   else
                     [RolesAdd True, Log LogRoleAdded]
                     @ (if nicknameSucceeds env
                        then [SetNickname (redditName (fst r) @ '' | '' @ username mem) True,
                              Log (LogNicknameSet
                                     (redditName (fst r) @ '' | '' @ username mem))]
                        else [SetNickname (redditName (fst r) @ '' | '' @ username mem) False,
                              Log LogNicknameFailed])
                     @ [Reply (ReplyVerified (redditName (fst r)) (username mem)
                                 (discordName (fst r))
                                 (''https://www.reddit.com/u/'' @ redditName (fst r)))])"
      by simp
  qed
qed

text \<open>A verify command in a channel that holds the two modmails.\<close>

definition exampleEnv :: verifyEnv where
  "exampleEnv =
     \<lparr>guildFound = True,
      modmailChannel = Some (fetchPage [newerModmail, olderModmail]),
      isTextBased = True,
      invoker = Some exampleMember,
      clock = 100000000,
      LOOKBACK_HOURS = 12,
      roleAddSucceeds = True,
      nicknameSucceeds = True\<rparr>"

theorem verify_strips_user_prefix_witness:
  "redditNameArg ''u/u/x'' = ''u/x''
   \<and> handleVerifyCommand exampleEnv ''!verify U/Hermit_Toad''
       = handleVerifyCommand exampleEnv ''!verify Hermit_Toad''
   \<and> handleVerifyCommand exampleEnv ''!verify u/Hermit_Toad''
       = [Reply (ReplySearching 12 ''Hermit_Toad''),
          RolesAdd True, Log LogRoleAdded,
          SetNickname ''Hermit_Toad | pikachucatcher88'' True,
          Log (LogNicknameSet ''Hermit_Toad | pikachucatcher88''),
          Reply (ReplyVerified ''Hermit_Toad'' ''pikachucatcher88'' ''PikachuCatcher88''
                   ''https://www.reddit.com/u/Hermit_Toad'')]"
proof -
  let ?match = "(\<lparr>redditName = ''Hermit_Toad'', discordName = ''PikachuCatcher88'',
                   status = ''Active''\<rparr>, newerModmail)"
  have h: "''Hermit_Toad'' \<noteq> [] \<and> (\<forall>c\<in>set ''Hermit_Toad''. isAscii c \<and> \<not> isSpace c)
           \<and> \<not> startsWith (toLowerCase ''Hermit_Toad'') ''u/''"
    by code_simp
  have e: "guildFound exampleEnv
           \<and> modmailChannel exampleEnv = Some (fetchPage [newerModmail, olderModmail])
           \<and> isTextBased exampleEnv \<and> invoker exampleEnv = Some exampleMember"
    and v: "LOOKBACK_HOURS exampleEnv = 12" "clock exampleEnv = 100000000"
      "roleAddSucceeds exampleEnv" "nicknameSucceeds exampleEnv"
      "username exampleMember = ''pikachucatcher88''"
    by (simp_all add: exampleEnv_def exampleMember_def)
  have f: "findMatchingModmail (fetchPage [newerModmail, olderModmail]) 100000000 ''Hermit_Toad''
             exampleMember 12 = Some ?match"
    by code_simp
  note t = verify_strips_user_prefix
             [of "''u/x''" "''Hermit_Toad''" exampleEnv "fetchPage [newerModmail, olderModmail]"
                exampleMember]
  from t have a: "redditNameArg ''u/u/x'' = ''u/x''" by simp
  from t h have b: "handleVerifyCommand exampleEnv (''!verify U/'' @ ''Hermit_Toad'')
                    = handleVerifyCommand exampleEnv (''!verify '' @ ''Hermit_Toad'')" by blast
  from t h e
  have "handleVerifyCommand exampleEnv (''!verify u/'' @ ''Hermit_Toad'') =
          Reply (ReplySearching (LOOKBACK_HOURS exampleEnv) ''Hermit_Toad'')
          # (case findMatchingModmail (fetchPage [newerModmail, olderModmail]) (clock exampleEnv)
                    ''Hermit_Toad'' exampleMember (LOOKBACK_HOURS exampleEnv) of
               None \<Rightarrow>
                 [Reply (ReplyNoMatch ''Hermit_Toad'' (LOOKBACK_HOURS exampleEnv)
                           (username exampleMember))]
             | Some r \<Rightarrow>
                 if \<not> roleAddSucceeds exampleEnv then
                   [RolesAdd False, Log LogRoleFailed,
                    Reply (ReplyRoleFailed (redditName (fst r)))]
                 else
                   [RolesAdd True, Log LogRoleAdded]
                   @ (if nicknameSucceeds exampleEnv
                      then [SetNickname (redditName (fst r) @ '' | '' @ username exampleMember) True,
                            Log (LogNicknameSet
                                   (redditName (fst r) @ '' | '' @ username exampleMember))]
                      else [SetNickname (redditName (fst r) @ '' | '' @ username exampleMember) False,
                            Log LogNicknameFailed])
                   @ [Reply (ReplyVerified (redditName (fst r)) (username exampleMember)
                               (discordName (fst r))
                               (''https://www.reddit.com/u/'' @ redditName (fst r)))])"
    by blast
  then have c: "handleVerifyCommand exampleEnv (''!verify u/'' @ ''Hermit_Toad'')
       = [Reply (ReplySearching 12 ''Hermit_Toad''),
          RolesAdd True, Log LogRoleAdded,
          SetNickname ''Hermit_Toad | pikachucatcher88'' True,
          Log (LogNicknameSet ''Hermit_Toad | pikachucatcher88''),
          Reply (ReplyVerified ''Hermit_Toad'' ''pikachucatcher88'' ''PikachuCatcher88''
                   ''https://www.reddit.com/u/Hermit_Toad'')]"
    by (simp add: v f)
  from a b c show ?thesis by simp
qed

lemma verify_example_outcome:
  "handleVerifyCommand exampleEnv ''!verify u/Hermit_Toad''
   = [Reply (ReplySearching 12 ''Hermit_Toad''),
      RolesAdd True, Log LogRoleAdded,
      SetNickname ''Hermit_Toad | pikachucatcher88'' True,
      Log (LogNicknameSet ''Hermit_Toad | pikachucatcher88''),
      Reply (ReplyVerified ''Hermit_Toad'' ''pikachucatcher88'' ''PikachuCatcher88''
               ''https://www.reddit.com/u/Hermit_Toad'')]"
  by code_simp

subsection \<open>Failures of the role grant and of the rename\<close>

text \<open>
  In the verify command a failed role grant ends the attempt with the failure reply and
  without a rename; a failed rename after a granted role is logged and the attempt ends
  with the success reply.
\<close>

lemma applyMatch_role_failure:
  assumes "\<not> isBanned (status (fst m))" and "\<not> roleAddSucceeds env"
  shows "applyMatch env mem m
         = [RolesAdd False, Log LogRoleFailed, Reply (ReplyRoleFailed (redditName (fst m)))]"
  using assms by (simp add: applyMatch_def Let_def)

lemma applyMatch_rename_failure:
  assumes "\<not> isBanned (status (fst m))" and "roleAddSucceeds env" and "\<not> nicknameSucceeds env"
  shows "applyMatch env mem m
         = [RolesAdd True, Log LogRoleAdded,
            SetNickname (redditName (fst m) @ '' | '' @ username mem) False,
            Log LogNicknameFailed,
            Reply (ReplyVerified (redditName (fst m)) (username mem) (discordName (fst m))
                     (''https://www.reddit.com/u/'' @ redditName (fst m)))]"
  using assms by (simp add: applyMatch_def Let_def)

text \<open>A forwarded modmail in the watched channel, and a guild where the role grant throws.\<close>

definition forwardedModmail :: message where
  "forwardedModmail =
     \<lparr>msgId = 7, createdTimestamp = 90000000,
      content = exampleText ''Hermit_Toad'' ''pikachucatcher88'' ''Active'', embeds = []\<rparr>"

definition roleFailingEnv :: watcherEnv where
  "roleFailingEnv =
     \<lparr>inGuild = True, inWatchChannel = True, fromSelf = False,
      membersCache = [exampleMember],
      membersFetch = (\<lambda>query. Some []),
      roleName = Some ''Verified'',
      watcherRoleAddSucceeds = False,
      watcherNicknameSucceeds = True\<rparr>"

text \<open>
  C7: when the role grant fails the attempt fails: no rename, no success outcome. The
  watcher script breaks this: it logs the failed grant, goes on to rename the member and
  replies that the role was assigned.
\<close>

theorem watcher_role_failure_not_fatal:
  "onMessageCreate roleFailingEnv forwardedModmail
   = [RolesAdd False, Log LogRoleFailed,
      SetNickname ''Hermit_Toad | pikachucatcher88'' True,
      Log (LogNicknameSet ''Hermit_Toad | pikachucatcher88''),
      Reply (ReplyLinked ''Hermit_Toad'' ''pikachucatcher88#0'' ''Verified'')]"
  by code_simp

subsection \<open>The status of a record\<close>

text \<open>
  With one colon on the Status line the status is the trimmed rest of the line, and
  \<open>Unknown\<close> when that is blank or there is no Status line.
\<close>

lemma splitStr_no_separator: "c \<notin> set s \<Longrightarrow> splitStr c s = [s]"
  by (induction s) auto

lemma splitStr_first_separator:
  "c \<notin> set a \<Longrightarrow> splitStr c (a @ c # rest) = a # splitStr c rest"
  by (induction a) auto

lemma statusOf_single_colon:
  assumes "findLine ''status:'' ls = Some (a @ CHR '':'' # rest)"
    and "CHR '':'' \<notin> set a" and "CHR '':'' \<notin> set rest"
  shows "statusOf ls = (if trim rest = [] then ''Unknown'' else trim rest)"
  using assms
  by (simp add: statusOf_def splitStr_first_separator splitStr_no_separator)

lemma statusOf_no_line: "findLine ''status:'' ls = None \<Longrightarrow> statusOf ls = ''Unknown''"
  by (simp add: statusOf_def)

text \<open>
  C9: the parser is to take the whole rest of the Status line after the first colon,
  trimmed. On a Status line with a second colon the code keeps only the text between the
  two colons: \<open>Status: Temporarily: Banned\<close> gives the status \<open>Temporarily\<close>, which
  the banned check of the matcher then lets through.
\<close>

theorem status_cut_at_second_colon:
  "parseModmailMessageFromFullText
     (''Author: Hermit_Toad'' @ [newline]
      @ ''Body: Register Discord with Discord ID: pikachucatcher88'' @ [newline]
      @ ''Status: Temporarily: Banned'')
   = Some \<lparr>redditName = ''Hermit_Toad'', discordName = ''pikachucatcher88'',
             status = ''Temporarily''\<rparr>"
  by code_simp

subsection \<open>The formatting normalizers\<close>

abbreviation star :: char where
  "star \<equiv> CHR ''*''"

text \<open>No two asterisks side by side.\<close>

definition noBold :: "string \<Rightarrow> bool" where
  "noBold s \<longleftrightarrow> successively (\<lambda>a b. a \<noteq> star \<or> b \<noteq> star) s"

lemma removeBold_Cons_plain: "b \<noteq> star \<Longrightarrow> removeBold (b # s) = b # removeBold s"
  by (cases s) auto

lemma removeBold_noBold: "noBold (removeBold s)"
proof (induction s rule: removeBold.induct)
  case (1 a b s)
  show ?case
  proof (cases "a = star \<and> b = star")
    case True
    with 1 show ?thesis by simp
  next
    case False
    with 1 have ih: "noBold (removeBold (b # s))" by simp
    show ?thesis
    proof (cases "a = star")
      case True
      with False have "b \<noteq> star" by simp
      then have "removeBold (b # s) = b # removeBold s" by (rule removeBold_Cons_plain)
      with ih False \<open>b \<noteq> star\<close> show ?thesis
        by (simp add: noBold_def successively_Cons)
    next
      case plain: False
      with ih False show ?thesis by (simp add: noBold_def successively_Cons)
    qed
  qed
qed (simp_all add: noBold_def)

lemma removeBold_id: "noBold s \<Longrightarrow> removeBold s = s"
  by (induction s rule: removeBold.induct) (auto simp: noBold_def)

lemma noBold_dropWhile: "noBold s \<Longrightarrow> noBold (dropWhile P s)"
proof -
  assume "noBold s"
  then have "successively (\<lambda>a b. a \<noteq> star \<or> b \<noteq> star) (takeWhile P s @ dropWhile P s)"
    by (simp add: noBold_def)
  then show ?thesis by (simp only: successively_append_iff noBold_def)
qed

lemma noBold_rev: "noBold (rev s) = noBold s"
  unfolding noBold_def successively_rev by (rule successively_cong) auto

lemma noBold_trim: "noBold s \<Longrightarrow> noBold (trim s)"
  by (simp add: trim_def noBold_rev noBold_dropWhile)

lemma trim_start: "trim s = [] \<or> \<not> isSpace (hd (trim s))"
proof (cases "trim s = []")
  case True
  then show ?thesis ..
next
  case False
  let ?u = "dropWhile isSpace s"
  let ?t = "dropWhile isSpace (rev ?u)"
  from False have t: "?t \<noteq> []" by (simp add: trim_def)
  have "rev ?u = takeWhile isSpace (rev ?u) @ ?t" by simp
  then have "?u = rev ?t @ rev (takeWhile isSpace (rev ?u))"
    by (metis rev_append rev_rev_ident)
  with t have "hd ?u = hd (rev ?t)" by (metis hd_append2 rev_is_Nil_conv)
  moreover have "?u \<noteq> []" using t by (cases "?u = []") simp_all
  then have "\<not> isSpace (hd ?u)" by (rule hd_dropWhile)
  ultimately show ?thesis by (simp add: trim_def)
qed

lemma trim_end: "trim s = [] \<or> \<not> isSpace (last (trim s))"
proof (cases "trim s = []")
  case True
  then show ?thesis ..
next
  case False
  let ?t = "dropWhile isSpace (rev (dropWhile isSpace s))"
  from False have t: "?t \<noteq> []" by (simp add: trim_def)
  then have "\<not> isSpace (hd ?t)" by (rule hd_dropWhile)
  with t show ?thesis by (simp add: trim_def last_rev)
qed

lemma trim_trim: "trim (trim s) = trim s"
proof (cases "trim s = []")
  case True
  show ?thesis by (simp only: True) (simp add: trim_def)
next
  case False
  with trim_start [of s] trim_end [of s]
  have a: "dropWhile isSpace (trim s) = trim s"
    and b: "dropWhile isSpace (rev (trim s)) = rev (trim s)"
    by (simp_all add: dropWhile_eq_self_iff hd_rev)
  show ?thesis by (subst trim_def) (simp add: a b)
qed

lemma set_trim: "set (trim s) \<subseteq> set s"
proof -
  have "set (trim s) \<subseteq> set (dropWhile isSpace s)"
    unfolding trim_def using set_dropWhileD by fastforce
  also have "\<dots> \<subseteq> set s" using set_dropWhileD by fastforce
  finally show ?thesis .
qed

lemma isLineBreak_isSpace: "isLineBreak c \<Longrightarrow> isSpace c"
  by (auto simp: isLineBreak_def isSpace_def)

lemma trim_Nil_iff: "trim s = [] \<longleftrightarrow> (\<forall>c\<in>set s. isSpace c)"
proof
  assume "trim s = []"
  then have a: "\<forall>c\<in>set (dropWhile isSpace s). isSpace c" by (simp add: trim_def)
  have "dropWhile isSpace s = []"
  proof (rule ccontr)
    assume ne: "dropWhile isSpace s \<noteq> []"
    then have "\<not> isSpace (hd (dropWhile isSpace s))" by (rule hd_dropWhile)
    with a ne show False by (metis hd_in_set)
  qed
  then show "\<forall>c\<in>set s. isSpace c" by simp
next
  assume "\<forall>c\<in>set s. isSpace c"
  then have h: "dropWhile isSpace s = []" by simp
  show "trim s = []" unfolding trim_def h by simp
qed

lemma trim_dropWhile: "trim (dropWhile isSpace s) = trim s"
  by (simp add: trim_def)

lemma set_removeBold: "set (removeBold s) \<subseteq> set s"
  by (induction s rule: removeBold.induct) auto

lemma unwrapLinks_id: "CHR ''['' \<notin> set s \<Longrightarrow> unwrapLinks s = s"
  by (induction s) (auto simp: linkAt_def)

lemma removeBackticks_id: "CHR 0x60 \<notin> set s \<Longrightarrow> removeBackticks s = s"
  by (auto simp: removeBackticks_def filter_id_conv)

lemma stripFormatting_plain:
  assumes "CHR 0x60 \<notin> set x" and "CHR ''['' \<notin> set x"
  shows "stripFormatting x = trim (removeBold x)"
proof (cases "x = []")
  case True
  then show ?thesis by (simp add: stripFormatting_def trim_def)
next
  case False
  from assms(1) set_removeBold [of x] have "CHR 0x60 \<notin> set (removeBold x)" by auto
  with False assms(2) show ?thesis
    by (simp add: stripFormatting_def unwrapLinks_id removeBackticks_id)
qed

lemma stripLeadingStars_id: "star \<notin> set s \<Longrightarrow> stripLeadingStars s = s"
  by (cases s) (auto simp: stripLeadingStars_def startsWith_def)

lemma stripTrailingStars_id: "star \<notin> set s \<Longrightarrow> stripTrailingStars s = s"
  by (simp add: stripTrailingStars_def stripLeadingStars_id)

lemma linkMatch_None: "CHR ''['' \<notin> set s \<Longrightarrow> linkMatch s = None"
  by (cases s) (auto simp: linkMatch_def)

lemma stripMarkdown_plain:
  assumes "star \<notin> set y" and "CHR ''['' \<notin> set y"
  shows "stripMarkdown y = trim y"
  using assms
  by (cases "y = []")
     (simp_all add: stripMarkdown_def stripLeadingStars_id stripTrailingStars_id linkMatch_None
        trim_def)

lemma linkAt_sets:
  assumes "linkAt s = Some (label, rest)"
  shows "set label \<subseteq> set s" and "set rest \<subseteq> set s"
proof -
  from assms obtain c r where s: "s = c # r" by (cases s) (auto simp: linkAt_def)
  let ?r1 = "dropWhile (\<lambda>x. x \<noteq> CHR '']'') r"
  let ?r2 = "dropWhile (\<lambda>x. x \<noteq> CHR '')'') (drop 2 ?r1)"
  from assms s have l: "label = takeWhile (\<lambda>x. x \<noteq> CHR '']'') r"
    by (auto simp: linkAt_def Let_def split: if_splits list.splits)
  from assms s obtain d where r2: "?r2 = d # rest"
    by (auto simp: linkAt_def Let_def split: if_splits list.splits)
  from l s show "set label \<subseteq> set s" by (auto dest: set_takeWhileD)
  have "set rest \<subseteq> set ?r2" using r2 by auto
  also have "\<dots> \<subseteq> set (drop 2 ?r1)" by (auto dest: set_dropWhileD)
  also have "\<dots> \<subseteq> set ?r1" by (rule set_drop_subset)
  also have "\<dots> \<subseteq> set r" by (auto dest: set_dropWhileD)
  finally show "set rest \<subseteq> set s" using s by auto
qed

lemma set_unwrapLinks: "set (unwrapLinks s) \<subseteq> set s"
proof (induction "length s" arbitrary: s rule: less_induct)
  case less
  show ?case
  proof (cases s)
    case Nil
    then show ?thesis by simp
  next
    case (Cons c r)
    show ?thesis
    proof (cases "linkAt (c # r)")
      case None
      with less [of r] Cons show ?thesis by auto
    next
      case (Some a)
      obtain label rest where a: "a = (label, rest)" by (cases a)
      from Some a have hit: "linkAt (c # r) = Some (label, rest)" by simp
      from linkAt_shorter [OF hit] Cons have "set (unwrapLinks rest) \<subseteq> set rest"
        by (intro less) simp
      with linkAt_sets [OF hit] hit Cons show ?thesis by auto
    qed
  qed
qed

lemma trim_Nil: "trim [] = []"
  by (simp add: trim_def)

lemma noBold_no_star: "star \<notin> set z \<Longrightarrow> noBold z"
  by (induction z rule: removeBold.induct) (auto simp: noBold_def)

lemma stripFormatting_no_backtick:
  assumes "CHR 0x60 \<notin> set x"
  shows "stripFormatting x = (if x = [] then [] else trim (removeBold (unwrapLinks x)))"
proof -
  from assms set_unwrapLinks [of x] set_removeBold [of "unwrapLinks x"]
  have "CHR 0x60 \<notin> set (removeBold (unwrapLinks x))" by auto
  then show ?thesis by (simp add: stripFormatting_def removeBackticks_id)
qed

lemma stripFormatting_settled:
  assumes "CHR 0x60 \<notin> set x" and "CHR ''['' \<notin> set (stripFormatting x)"
  shows "stripFormatting (stripFormatting x) = stripFormatting x"
proof (cases "x = []")
  case True
  then show ?thesis by (simp add: stripFormatting_def)
next
  case False
  let ?b = "removeBold (unwrapLinks x)"
  let ?y = "trim ?b"
  from False have y: "stripFormatting x = ?y"
    by (simp add: stripFormatting_no_backtick [OF assms(1)])
  from assms(1) set_unwrapLinks [of x] set_removeBold [of "unwrapLinks x"] set_trim [of ?b]
  have tick: "CHR 0x60 \<notin> set ?y" by auto
  from assms(2) y have br: "CHR ''['' \<notin> set ?y" by simp
  have nb: "noBold ?y" by (intro noBold_trim removeBold_noBold)
  have "stripFormatting ?y = (if ?y = [] then [] else trim (removeBold (unwrapLinks ?y)))"
    by (rule stripFormatting_no_backtick [OF tick])
  also have "\<dots> = (if ?y = [] then [] else trim ?y)"
    by (simp add: unwrapLinks_id [OF br] removeBold_id [OF nb])
  also have "\<dots> = ?y" by (simp add: trim_trim)
  finally show ?thesis using y by simp
qed

lemma stripMarkdown_trimmed: "trim (stripMarkdown y) = stripMarkdown y"
  by (cases "y = []") (simp_all add: stripMarkdown_def Let_def trim_trim trim_Nil)

lemma stripMarkdown_settled:
  assumes "star \<notin> set (stripMarkdown y)" and "CHR ''['' \<notin> set (stripMarkdown y)"
  shows "stripMarkdown (stripMarkdown y) = stripMarkdown y"
  using stripMarkdown_plain [OF assms] by (simp add: stripMarkdown_trimmed)

lemma stripFormatting_trimmed: "trim (stripFormatting raw) = stripFormatting raw"
  by (simp add: stripFormatting_def trim_trim trim_Nil)

text \<open>\<open>s.endsWith(p)\<close>\<close>

definition endsWith :: "string \<Rightarrow> string \<Rightarrow> bool" where
  "endsWith s p \<longleftrightarrow> startsWith (rev s) (rev p)"

lemma linkAt_lengths:
  assumes "linkAt s = Some (label, rest)"
  shows "length label + length rest < length s"
proof -
  from assms obtain c r where s: "s = c # r" by (cases s) (auto simp: linkAt_def)
  let ?r1 = "dropWhile (\<lambda>x. x \<noteq> CHR '']'') r"
  let ?r2 = "dropWhile (\<lambda>x. x \<noteq> CHR '')'') (drop 2 ?r1)"
  from assms s have l: "label = takeWhile (\<lambda>x. x \<noteq> CHR '']'') r"
    and st: "startsWith ?r1 ''](''"
    by (auto simp: linkAt_def Let_def split: if_splits list.splits)
  from assms s obtain d where r2: "?r2 = d # rest"
    by (auto simp: linkAt_def Let_def split: if_splits list.splits)
  from st have "take (length [CHR 0x5D, CHR 0x28]) ?r1 = [CHR 0x5D, CHR 0x28]"
    unfolding startsWith_def .
  then have "length (take (length [CHR 0x5D, CHR 0x28]) ?r1) = length [CHR 0x5D, CHR 0x28]"
    by (rule arg_cong)
  then have two: "length ?r1 = 2 + length (drop 2 ?r1)" by simp
  have "length r = length label + length ?r1"
    unfolding l by (metis length_append takeWhile_dropWhile_id)
  moreover note two
  moreover have "length ?r2 \<le> length (drop 2 ?r1)" by (rule length_dropWhile_le)
  moreover have "length ?r2 = 1 + length rest" using r2 by simp
  ultimately have "length label + length rest < Suc (length r)" by linarith
  then show ?thesis by (simp add: s)
qed

lemma unwrapLinks_length: "length (unwrapLinks s) \<le> length s"
proof (induction "length s" arbitrary: s rule: less_induct)
  case less
  show ?case
  proof (cases s)
    case Nil
    then show ?thesis by simp
  next
    case (Cons c r)
    show ?thesis
    proof (cases "linkAt (c # r)")
      case None
      with less [of r] Cons show ?thesis by simp
    next
      case (Some a)
      obtain label rest where a: "a = (label, rest)" by (cases a)
      from Some a have hit: "linkAt (c # r) = Some (label, rest)" by simp
      from linkAt_lengths [OF hit] have lt: "length label + length rest < length (c # r)" .
      then have "length (unwrapLinks rest) \<le> length rest" using Cons by (intro less) simp
      with lt hit Cons show ?thesis by simp
    qed
  qed
qed

lemma unwrapLinks_fixed: "unwrapLinks s = s \<longleftrightarrow> searchFrom linkAt s = None"
proof (induction s)
  case Nil
  then show ?case by (simp add: linkAt_def)
next
  case (Cons c r)
  show ?case
  proof (cases "linkAt (c # r)")
    case None
    with Cons show ?thesis by simp
  next
    case (Some a)
    obtain label rest where a: "a = (label, rest)" by (cases a)
    from Some a have hit: "linkAt (c # r) = Some (label, rest)" by simp
    from linkAt_lengths [OF hit] unwrapLinks_length [of rest]
    have "length (unwrapLinks (c # r)) < length (c # r)" using hit by simp
    then have "unwrapLinks (c # r) \<noteq> c # r" by (metis less_irrefl)
    with Some show ?thesis by simp
  qed
qed

lemma removeBold_length: "length (removeBold s) \<le> length s"
  by (induction s rule: removeBold.induct) auto

lemma removeBold_fixed: "removeBold s = s \<longleftrightarrow> noBold s"
proof
  show "removeBold s = s \<Longrightarrow> noBold s" using removeBold_noBold [of s] by simp
  show "noBold s \<Longrightarrow> removeBold s = s" by (rule removeBold_id)
qed

lemma noBold_includes: "noBold s \<longleftrightarrow> \<not> includesStr s ''**''"
  by (induction s rule: removeBold.induct) (auto simp: noBold_def startsWith_def)

lemma trim_length: "length (trim s) \<le> length s"
proof -
  have "length (trim s) \<le> length (dropWhile isSpace s)"
    unfolding trim_def using length_dropWhile_le [of isSpace "rev (dropWhile isSpace s)"] by simp
  also have "\<dots> \<le> length s" by (rule length_dropWhile_le)
  finally show ?thesis .
qed

lemma removeBackticks_length: "length (removeBackticks s) \<le> length s"
  by (simp add: removeBackticks_def)

lemma stripFormatting_no_tick: "CHR 0x60 \<notin> set (stripFormatting x)"
proof (cases "x = []")
  case True
  then show ?thesis by (simp add: stripFormatting_def)
next
  case False
  let ?s = "removeBackticks (removeBold (unwrapLinks x))"
  have "CHR 0x60 \<notin> set ?s" by (simp add: removeBackticks_def)
  with set_trim [of ?s] have "CHR 0x60 \<notin> set (trim ?s)" by auto
  with False show ?thesis by (simp add: stripFormatting_def)
qed

lemma unwrapLinks_shrinks:
  "searchFrom linkAt s \<noteq> None \<Longrightarrow> length (unwrapLinks s) < length s"
proof (induction s)
  case Nil
  then show ?case by (simp add: linkAt_def)
next
  case (Cons d s)
  show ?case
  proof (cases "linkAt (d # s)")
    case None
    with Cons show ?thesis by simp
  next
    case (Some a)
    obtain label rest where "a = (label, rest)" by (cases a)
    with Some have hit: "linkAt (d # s) = Some (label, rest)" by simp
    from linkAt_lengths [OF hit] unwrapLinks_length [of rest] hit
    show ?thesis by simp
  qed
qed

lemma removeBold_shrinks: "removeBold s \<noteq> s \<Longrightarrow> length (removeBold s) < length s"
proof (induction s rule: removeBold.induct)
  case (1 a b s)
  show ?case
  proof (cases "a = CHR ''*'' \<and> b = CHR ''*''")
    case True
    with removeBold_length [of s] show ?thesis by simp
  next
    case False
    with 1 show ?thesis by auto
  qed
qed simp_all

lemma stripFormatting_second_pass:
  "stripFormatting (stripFormatting x) = stripFormatting x
     \<longleftrightarrow> searchFrom linkAt (stripFormatting x) = None
         \<and> \<not> includesStr (stripFormatting x) ''**''"
proof (cases "stripFormatting x = []")
  case True
  then show ?thesis by (simp add: stripFormatting_def linkAt_def)
next
  case False
  let ?o = "stripFormatting x"
  have tick: "removeBackticks s = s" if "set s \<subseteq> set ?o" for s
    using that stripFormatting_no_tick [of x] by (intro removeBackticks_id) auto
  have second: "stripFormatting ?o = trim (removeBackticks (removeBold (unwrapLinks ?o)))"
    using False by (simp add: stripFormatting_def)
  show ?thesis
  proof
    assume fixed: "stripFormatting ?o = ?o"
    let ?u = "unwrapLinks ?o"
    have "length ?o \<le> length (removeBackticks (removeBold ?u))"
      using fixed second trim_length [of "removeBackticks (removeBold ?u)"] by simp
    also have "\<dots> \<le> length (removeBold ?u)" by (rule removeBackticks_length)
    finally have a: "length ?o \<le> length (removeBold ?u)" .
    with removeBold_length [of ?u] unwrapLinks_length [of ?o]
    have lu: "length ?u = length ?o" and lb: "length (removeBold ?u) = length ?u" by simp_all
    have u: "?u = ?o"
    proof (rule ccontr)
      assume "?u \<noteq> ?o"
      then have "searchFrom linkAt ?o \<noteq> None" by (simp add: unwrapLinks_fixed)
      from unwrapLinks_shrinks [OF this] lu show False by simp
    qed
    have "removeBold ?o = ?o"
    proof (rule ccontr)
      assume "removeBold ?o \<noteq> ?o"
      from removeBold_shrinks [OF this] lb u show False by simp
    qed
    then have "noBold ?o" by (simp add: removeBold_fixed)
    with u show "searchFrom linkAt ?o = None \<and> \<not> includesStr ?o ''**''"
      by (simp add: unwrapLinks_fixed noBold_includes)
  next
    assume "searchFrom linkAt ?o = None \<and> \<not> includesStr ?o ''**''"
    then have u: "unwrapLinks ?o = ?o" and b: "removeBold ?o = ?o"
      by (simp_all add: unwrapLinks_fixed removeBold_fixed noBold_includes)
    have "stripFormatting ?o = trim (removeBackticks ?o)" using second u b by simp
    also have "removeBackticks ?o = ?o" by (rule tick) simp
    also have "trim ?o = ?o" by (rule stripFormatting_trimmed)
    finally show "stripFormatting ?o = ?o" .
  qed
qed

lemma stripLeadingStars_length: "length (stripLeadingStars s) \<le> length s"
  by (simp add: stripLeadingStars_def)

lemma stripLeadingStars_fixed: "stripLeadingStars s = s \<longleftrightarrow> \<not> startsWith s ''*''"
proof
  assume fixed: "stripLeadingStars s = s"
  show "\<not> startsWith s ''*''"
  proof
    assume "startsWith s ''*''"
    then have "length (stripLeadingStars s) < length s"
      by (cases s) (auto simp: stripLeadingStars_def startsWith_def)
    with fixed show False by simp
  qed
next
  assume "\<not> startsWith s ''*''"
  then show "stripLeadingStars s = s"
    by (cases s) (auto simp: stripLeadingStars_def startsWith_def)
qed

lemma stripLeadingStars_shrinks:
  "stripLeadingStars s \<noteq> s \<Longrightarrow> length (stripLeadingStars s) < length s"
  by (cases s) (auto simp: stripLeadingStars_def split: if_splits)

lemma stripTrailingStars_length: "length (stripTrailingStars s) \<le> length s"
  using stripLeadingStars_length [of "rev s"] by (simp add: stripTrailingStars_def)

lemma stripTrailingStars_fixed: "stripTrailingStars s = s \<longleftrightarrow> \<not> endsWith s ''*''"
proof -
  have "stripTrailingStars s = s \<longleftrightarrow> stripLeadingStars (rev s) = rev s"
    unfolding stripTrailingStars_def by (metis rev_rev_ident)
  then show ?thesis by (simp add: stripLeadingStars_fixed endsWith_def)
qed

lemma linkMatch_length: "linkMatch s = Some label \<Longrightarrow> length label < length s"
proof -
  assume a: "linkMatch s = Some label"
  then obtain c r where s: "s = c # r" by (cases s) (auto simp: linkMatch_def)
  from a s have "label = takeWhile (\<lambda>x. x \<noteq> CHR '']'') r"
    by (auto simp: linkMatch_def Let_def split: if_splits)
  then have "length label \<le> length r" by (simp add: length_takeWhile_le)
  with s show ?thesis by simp
qed

lemma stripMarkdown_second_pass:
  "stripMarkdown (stripMarkdown y) = stripMarkdown y
     \<longleftrightarrow> \<not> startsWith (stripMarkdown y) ''*'' \<and> \<not> endsWith (stripMarkdown y) ''*''
         \<and> linkMatch (stripMarkdown y) = None"
proof (cases "stripMarkdown y = []")
  case True
  then show ?thesis
    by (simp add: stripMarkdown_def startsWith_def endsWith_def linkMatch_def)
next
  case False
  let ?z = "stripMarkdown y"
  let ?s1 = "stripTrailingStars (stripLeadingStars ?z)"
  let ?s2 = "case linkMatch ?s1 of Some label \<Rightarrow> label | None \<Rightarrow> ?s1"
  let ?s3 = "stripTrailingStars (stripLeadingStars ?s2)"
  have second: "stripMarkdown ?z = trim ?s3"
    using False by (simp add: stripMarkdown_def [of ?z] Let_def)
  have l1: "length ?s1 \<le> length (stripLeadingStars ?z)" by (rule stripTrailingStars_length)
  have l0: "length (stripLeadingStars ?z) \<le> length ?z" by (rule stripLeadingStars_length)
  have l2: "length ?s2 \<le> length ?s1"
    by (cases "linkMatch ?s1") (auto dest: linkMatch_length)
  have l3: "length ?s3 \<le> length ?s2"
    using stripTrailingStars_length [of "stripLeadingStars ?s2"] stripLeadingStars_length [of ?s2]
    by simp
  show ?thesis
  proof
    assume fixed: "stripMarkdown ?z = ?z"
    with second trim_length [of ?s3] have "length ?z \<le> length ?s3" by simp
    with l0 l1 l2 l3 have e0: "length (stripLeadingStars ?z) = length ?z"
      and e1: "length ?s1 = length (stripLeadingStars ?z)"
      and e2: "length ?s2 = length ?s1" by simp_all
    have a: "stripLeadingStars ?z = ?z"
    proof (rule ccontr)
      assume "stripLeadingStars ?z \<noteq> ?z"
      then have "length (stripLeadingStars ?z) < length ?z" by (rule stripLeadingStars_shrinks)
      with e0 show False by simp
    qed
    have b: "stripTrailingStars ?z = ?z"
    proof (rule ccontr)
      assume ne: "stripTrailingStars ?z \<noteq> ?z"
      then have "stripLeadingStars (rev ?z) \<noteq> rev ?z"
        unfolding stripTrailingStars_def by (metis rev_rev_ident)
      then have "length (stripLeadingStars (rev ?z)) < length (rev ?z)"
        by (rule stripLeadingStars_shrinks)
      then have "length (stripTrailingStars ?z) < length ?z"
        by (simp add: stripTrailingStars_def)
      with e1 a show False by simp
    qed
    have c: "linkMatch ?z = None"
    proof (rule ccontr)
      assume "linkMatch ?z \<noteq> None"
      then obtain label where "linkMatch ?z = Some label" by auto
      with linkMatch_length [OF this] e2 a b show False by simp
    qed
    from a b c show "\<not> startsWith ?z ''*'' \<and> \<not> endsWith ?z ''*'' \<and> linkMatch ?z = None"
      by (simp add: stripLeadingStars_fixed stripTrailingStars_fixed)
  next
    assume "\<not> startsWith ?z ''*'' \<and> \<not> endsWith ?z ''*'' \<and> linkMatch ?z = None"
    then have "stripLeadingStars ?z = ?z" "stripTrailingStars ?z = ?z" "linkMatch ?z = None"
      by (simp_all add: stripLeadingStars_fixed stripTrailingStars_fixed)
    with second have "stripMarkdown ?z = trim ?z" by simp
    then show "stripMarkdown ?z = ?z" by (simp add: stripMarkdown_trimmed)
  qed
qed

lemma no_bracket_no_link: "CHR ''['' \<notin> set s \<Longrightarrow> searchFrom linkAt s = None"
  using unwrapLinks_id [of s] by (simp add: unwrapLinks_fixed)

text \<open>
  C6: the formatting normalizer is idempotent. This fails for both normalizers:
  \<open>stripFormatting\<close> turns an asterisk, a backtick and an asterisk into \<open>**\<close>, which a
  second pass removes, and unwraps only the outer of two nested links at a time;
  \<open>stripMarkdown\<close> takes at most four leading asterisks off in a pass.
\<close>

theorem normalizers_not_idempotent:
  "stripFormatting [star, CHR 0x60, star] = ''**''
   \<and> stripFormatting ''**'' = ''''
   \<and> stripFormatting ''[[a](b)](c)'' = ''[a](c)''
   \<and> stripFormatting ''[a](c)'' = ''a''
   \<and> stripMarkdown ''*****a'' = ''*a''
   \<and> stripMarkdown ''*a'' = ''a''"
  by code_simp

text \<open>
  C6, as it holds: a second pass changes nothing exactly when the first pass left nothing
  for it to act on. For \<open>stripFormatting\<close> that is a result in which the link pattern
  has no match and which holds no \<open>**\<close>, in particular every result with no \<open>[\<close> and
  no \<open>**\<close>; for \<open>stripMarkdown\<close> it is a result that neither starts nor ends with
  an asterisk and is not as a whole a link.
\<close>

theorem normalizers_second_pass:
  "(stripFormatting (stripFormatting x) = stripFormatting x
      \<longleftrightarrow> searchFrom linkAt (stripFormatting x) = None
          \<and> \<not> includesStr (stripFormatting x) ''**'')
   \<and> (stripMarkdown (stripMarkdown y) = stripMarkdown y
      \<longleftrightarrow> \<not> startsWith (stripMarkdown y) ''*'' \<and> \<not> endsWith (stripMarkdown y) ''*''
          \<and> linkMatch (stripMarkdown y) = None)
   \<and> (CHR ''['' \<notin> set (stripFormatting x) \<and> \<not> includesStr (stripFormatting x) ''**''
      \<longrightarrow> stripFormatting (stripFormatting x) = stripFormatting x)"
  using stripFormatting_second_pass [of x] stripMarkdown_second_pass [of y]
    no_bracket_no_link [of "stripFormatting x"]
  by blast

theorem normalizers_second_pass_witness:
  "stripFormatting (CHR 0x60 # ''pikachucatcher88'' @ [CHR 0x60]) = ''pikachucatcher88''
   \<and> stripFormatting ''pikachucatcher88'' = ''pikachucatcher88''
   \<and> stripMarkdown ''a*b'' = ''a*b''
   \<and> stripMarkdown (stripMarkdown ''a*b'') = stripMarkdown ''a*b''
   \<and> stripFormatting (stripFormatting ''[[a](b)](c)'') \<noteq> stripFormatting ''[[a](b)](c)''
   \<and> stripMarkdown (stripMarkdown ''*****a'') \<noteq> stripMarkdown ''*****a''"
proof -
  let ?x = "CHR 0x60 # ''pikachucatcher88'' @ [CHR 0x60]"
  have a: "stripFormatting ?x = ''pikachucatcher88''" by code_simp
  have b: "CHR ''['' \<notin> set ''pikachucatcher88'' \<and> \<not> includesStr ''pikachucatcher88'' ''**''"
    by code_simp
  from normalizers_second_pass [of ?x] a b
  have 1: "stripFormatting ''pikachucatcher88'' = ''pikachucatcher88''" by simp
  have c: "stripMarkdown ''a*b'' = ''a*b''" by code_simp
  have d: "\<not> startsWith ''a*b'' ''*'' \<and> \<not> endsWith ''a*b'' ''*'' \<and> linkMatch ''a*b'' = None"
    by code_simp
  from normalizers_second_pass [of _ "''a*b''"] c d
  have 2: "stripMarkdown (stripMarkdown ''a*b'') = stripMarkdown ''a*b''" by simp
  have e: "stripFormatting ''[[a](b)](c)'' = ''[a](c)''" "searchFrom linkAt ''[a](c)'' \<noteq> None"
    by code_simp+
  from normalizers_second_pass [of "''[[a](b)](c)''"] e
  have 3: "stripFormatting (stripFormatting ''[[a](b)](c)'') \<noteq> stripFormatting ''[[a](b)](c)''"
    by simp
  have f: "stripMarkdown ''*****a'' = ''*a''" "startsWith ''*a'' ''*''" by code_simp+
  from normalizers_second_pass [of _ "''*****a''"] f
  have 4: "stripMarkdown (stripMarkdown ''*****a'') \<noteq> stripMarkdown ''*****a''" by simp
  from a 1 c 2 3 4 show ?thesis by simp
qed

subsection \<open>The parser fails closed\<close>

lemma statusOf_nonempty: "statusOf ls \<noteq> []"
  by (auto simp: statusOf_def Let_def split: option.splits)

lemma bodyDiscordName_no_line: "findLine ''body:'' ls = None \<Longrightarrow> bodyDiscordName ls = None"
  by (simp add: bodyDiscordName_def)

lemma parse_None_no_discord:
  "bodyDiscordName (linesOf t) = None \<Longrightarrow> parseModmailMessageFromFullText t = None"
  by (cases "linesOf t") (simp_all add: parseModmailMessageFromFullText_def Let_def)

lemma parse_None_no_reddit:
  assumes "authorName (linesOf t) = None"
    and "linesOf t = [] \<or> stripMarkdown (hd (linesOf t)) = []"
  shows "parseModmailMessageFromFullText t = None"
  using assms
  by (auto simp: parseModmailMessageFromFullText_def Let_def split: list.splits option.splits)

lemma parse_Some:
  assumes "parseModmailMessageFromFullText t = Some r"
  shows "redditName r \<noteq> []" and "discordName r \<noteq> []" and "status r \<noteq> []"
    and "bodyDiscordName (linesOf t) = Some (discordName r)"
    and "redditName r = (case authorName (linesOf t) of
                           Some n \<Rightarrow> n
                         | None \<Rightarrow> stripMarkdown (hd (linesOf t)))"
  using assms statusOf_nonempty
  by (auto simp: parseModmailMessageFromFullText_def Let_def
           split: list.splits option.splits if_splits)

lemma finalRedditUser_nonempty: "finalRedditUser str \<noteq> []"
  by (simp add: finalRedditUser_def)

lemma onMessageCreate_no_discord:
  assumes "watcherDiscordName (stripFormatting (getMessageText msg)) = None"
  shows "onMessageCreate env msg = [] \<or> onMessageCreate env msg = [Log LogStatusBanned]
         \<or> onMessageCreate env msg = [Log LogNoDiscordLine]"
  using assms by (simp add: onMessageCreate_def Let_def)

lemma bodyPhrase_nonempty: "bodyPhrase phrase str = Some v \<Longrightarrow> str \<noteq> []"
  by (auto simp: bodyPhrase_def lit_def toLowerCase_def)

lemma watcherDiscordName_nonempty: "watcherDiscordName str \<noteq> None \<Longrightarrow> str \<noteq> []"
  by (auto simp: watcherDiscordName_def split: option.splits dest: bodyPhrase_nonempty)

lemma fallback_of_trimmed:
  assumes "trim str = str" and "str \<noteq> []"
  shows "fallbackRedditUser str \<noteq> []"
proof -
  from assms trim_start [of str] have h: "\<not> isSpace (hd str)" by simp
  then have nb: "\<not> isLineBreak (hd str)" by (auto dest: isLineBreak_isSpace)
  let ?l = "takeWhile (\<lambda>c. \<not> isLineBreak c) str"
  from assms(2) nb have l: "?l \<noteq> []" "hd str \<in> set ?l" by (cases str; simp)+
  with h have "trim ?l \<noteq> []" by (auto simp: trim_Nil_iff)
  with l show ?thesis by (simp add: fallbackRedditUser_def firstLine_def Let_def)
qed

lemma watcher_names_from_text:
  assumes "watcherDiscordName (stripFormatting raw) \<noteq> None"
  shows "fallbackRedditUser (stripFormatting raw) \<noteq> []"
  using fallback_of_trimmed [OF stripFormatting_trimmed watcherDiscordName_nonempty [OF assms]] .

text \<open>
  Where the names are missing outright the parser fails closed. A text with no line that
  starts with \<open>body:\<close>, or whose Body line has no accepted phrase, parses to \<open>null\<close>;
  so does a text with no usable Author line whose first line strips to nothing. A record
  that is returned has a non-empty Reddit name, Discord name and status. The watcher
  script does nothing but log when it finds no Discord name; when it finds one, the text
  has a first line to take the Reddit user from, and its Reddit user is never empty.
\<close>

lemma fails_closed_without_names:
  "(findLine ''body:'' (linesOf t) = None \<longrightarrow> parseModmailMessageFromFullText t = None)
   \<and> (bodyDiscordName (linesOf t) = None \<longrightarrow> parseModmailMessageFromFullText t = None)
   \<and> (authorName (linesOf t) = None
        \<and> (linesOf t = [] \<or> stripMarkdown (hd (linesOf t)) = [])
      \<longrightarrow> parseModmailMessageFromFullText t = None)
   \<and> (\<forall>r. parseModmailMessageFromFullText t = Some r
          \<longrightarrow> redditName r \<noteq> [] \<and> discordName r \<noteq> [] \<and> status r \<noteq> []
              \<and> bodyDiscordName (linesOf t) = Some (discordName r))
   \<and> (watcherDiscordName (stripFormatting (getMessageText msg)) = None
      \<longrightarrow> onMessageCreate env msg = [] \<or> onMessageCreate env msg = [Log LogStatusBanned]
          \<or> onMessageCreate env msg = [Log LogNoDiscordLine])
   \<and> (watcherDiscordName (stripFormatting raw) \<noteq> None
      \<longrightarrow> fallbackRedditUser (stripFormatting raw) \<noteq> [])
   \<and> finalRedditUser str \<noteq> []"
  using bodyDiscordName_no_line [of "linesOf t"] parse_None_no_discord [of t]
    parse_None_no_reddit [of t] parse_Some [of t]
    onMessageCreate_no_discord [of msg env] watcher_names_from_text [of raw]
    finalRedditUser_nonempty [of str]
  by blast

text \<open>A message that is no forwarded modmail.\<close>

definition plainMessage :: message where
  "plainMessage =
     \<lparr>msgId = 8, createdTimestamp = 90000000, content = ''hello there'', embeds = []\<rparr>"

lemma fails_closed_without_names_instance:
  "findLine ''body:'' (linesOf ''hello there'') = None
   \<and> parseModmailMessageFromFullText ''hello there'' = None
   \<and> authorName (linesOf ''**'') = None
   \<and> stripMarkdown (hd (linesOf ''**'')) = []
   \<and> parseModmailMessageFromFullText ''**'' = None
   \<and> bodyDiscordName (linesOf (exampleText ''Hermit_Toad'' ''pikachucatcher88'' ''Active''))
       = Some ''pikachucatcher88''
   \<and> watcherDiscordName (stripFormatting (getMessageText plainMessage)) = None
   \<and> onMessageCreate roleFailingEnv plainMessage = [Log LogNoDiscordLine]
   \<and> watcherDiscordName (stripFormatting ''Body: Verify Discord: carol'') = Some ''carol''
   \<and> fallbackRedditUser (stripFormatting ''Body: Verify Discord: carol'') \<noteq> []"
proof -
  have a: "findLine ''body:'' (linesOf ''hello there'') = None"
    by code_simp
  have b: "authorName (linesOf ''**'') = None" "stripMarkdown (hd (linesOf ''**'')) = []"
    by code_simp+
  have c: "parseModmailMessageFromFullText (exampleText ''Hermit_Toad'' ''pikachucatcher88'' ''Active'')
           = Some \<lparr>redditName = ''Hermit_Toad'', discordName = ''pikachucatcher88'',
                     status = ''Active''\<rparr>"
    by code_simp
  have d: "watcherDiscordName (stripFormatting (getMessageText plainMessage)) = None"
    by code_simp
  have e: "onMessageCreate roleFailingEnv plainMessage \<noteq> []"
    "onMessageCreate roleFailingEnv plainMessage \<noteq> [Log LogStatusBanned]"
    by code_simp+
  from fails_closed_without_names [where t = "''hello there''"] a
  have 1: "parseModmailMessageFromFullText ''hello there'' = None" by blast
  from fails_closed_without_names [where t = "''**''"] b
  have 2: "parseModmailMessageFromFullText ''**'' = None" by blast
  from fails_closed_without_names [where t = "exampleText ''Hermit_Toad'' ''pikachucatcher88'' ''Active''"] c
  have 3: "bodyDiscordName (linesOf (exampleText ''Hermit_Toad'' ''pikachucatcher88'' ''Active''))
           = Some ''pikachucatcher88''" by simp
  from fails_closed_without_names [where msg = plainMessage and env = roleFailingEnv] d e
  have 4: "onMessageCreate roleFailingEnv plainMessage = [Log LogNoDiscordLine]" by blast
  have f: "watcherDiscordName (stripFormatting ''Body: Verify Discord: carol'') = Some ''carol''"
    by code_simp
  from fails_closed_without_names [where raw = "''Body: Verify Discord: carol''"] f
  have 5: "fallbackRedditUser (stripFormatting ''Body: Verify Discord: carol'') \<noteq> []" by simp
  from a b 1 2 3 4 5 d f show ?thesis by simp
qed

text \<open>
  C3: the parser returns \<open>null\<close> whenever the Reddit name or the Discord name cannot be
  extracted. The code falls back to the first line not only when there is no Author line,
  as its comment says, but also when the Author line has no value: the text \<open>Author:\<close>,
  newline, \<open>Body: Verify Discord: carol\<close> names no Reddit user and still parses to a
  record, with the Reddit name \<open>Author:\<close>; with a line before the empty Author line,
  that line becomes the Reddit name.
\<close>

theorem valueless_author_line:
  "authorName (linesOf (''Author:'' @ [newline] @ ''Body: Verify Discord: carol'')) = None
   \<and> parseModmailMessageFromFullText (''Author:'' @ [newline] @ ''Body: Verify Discord: carol'')
       = Some \<lparr>redditName = ''Author:'', discordName = ''carol'', status = ''Unknown''\<rparr>
   \<and> findLine ''author:''
         (linesOf (''hello'' @ [newline] @ ''Author: **'' @ [newline]
                   @ ''Body: Verify Discord: carol''))
       = Some ''Author: **''
   \<and> parseModmailMessageFromFullText
         (''hello'' @ [newline] @ ''Author: **'' @ [newline] @ ''Body: Verify Discord: carol'')
       = Some \<lparr>redditName = ''hello'', discordName = ''carol'', status = ''Unknown''\<rparr>"
  by code_simp

subsection \<open>Where the Reddit name comes from\<close>

lemma labelledValue_first:
  assumes "searchFrom (lit label) str = Some r" and "restOfLine r = Some v"
  shows "labelledValue label str = Some v"
  using assms unfolding labelledValue_def
proof (induction str)
  case Nil
  then show ?case by simp
next
  case (Cons c str)
  then show ?case by (cases "lit label (c # str)") auto
qed

lemma labelledValue_absent:
  assumes "searchFrom (lit label) str = None"
  shows "labelledValue label str = None"
  using assms unfolding labelledValue_def
proof (induction str)
  case Nil
  then show ?case by simp
next
  case (Cons c str)
  then show ?case by (cases "lit label (c # str)") auto
qed

lemma line_after_spaces:
  assumes "\<exists>c\<in>set (takeWhile (\<lambda>c. \<not> isLineBreak c) r). \<not> isSpace c"
  shows "dropWhile isSpace r \<noteq> []"
    and "takeWhile (\<lambda>c. \<not> isLineBreak c) (dropWhile isSpace r)
           = dropWhile isSpace (takeWhile (\<lambda>c. \<not> isLineBreak c) r)"
  using assms
proof (induction r)
  case Nil
  {
    case 1
    then show ?case by simp
  next
    case 2
    then show ?case by simp
  }
next
  case (Cons c r)
  {
    case 1
    with Cons.IH(1) show ?case by (auto split: if_splits dest: isLineBreak_isSpace)
  next
    case 2
    with Cons.IH(2) show ?case by (auto split: if_splits dest: isLineBreak_isSpace)
  }
qed

lemma restOfLine_value:
  assumes "trim (takeWhile (\<lambda>c. \<not> isLineBreak c) r) \<noteq> []"
  shows "\<exists>v. restOfLine r = Some v \<and> trim v = trim (takeWhile (\<lambda>c. \<not> isLineBreak c) r)"
proof -
  from assms have ex: "\<exists>c\<in>set (takeWhile (\<lambda>c. \<not> isLineBreak c) r). \<not> isSpace c"
    by (simp add: trim_Nil_iff)
  from line_after_spaces [OF ex]
  have "restOfLine r = Some (dropWhile isSpace (takeWhile (\<lambda>c. \<not> isLineBreak c) r))"
    by (simp add: restOfLine_def Let_def)
  then show ?thesis by (simp add: trim_dropWhile)
qed

lemma redditUser_participant:
  assumes "searchFrom (lit ''Participant:'') str = Some r"
    and "trim (takeWhile (\<lambda>c. \<not> isLineBreak c) r) \<noteq> []"
  shows "finalRedditUser str = trim (takeWhile (\<lambda>c. \<not> isLineBreak c) r)"
proof -
  from restOfLine_value [OF assms(2)] obtain v
    where v: "restOfLine r = Some v" "trim v = trim (takeWhile (\<lambda>c. \<not> isLineBreak c) r)"
    by blast
  with labelledValue_first [OF assms(1)] have "redditUser str = trim v"
    by (simp add: redditUser_def)
  with v(2) assms(2) show ?thesis by (simp add: finalRedditUser_def)
qed

lemma redditUser_author:
  assumes "searchFrom (lit ''Participant:'') str = None"
    and "searchFrom (lit ''Author:'') str = Some r"
    and "trim (takeWhile (\<lambda>c. \<not> isLineBreak c) r) \<noteq> []"
  shows "finalRedditUser str = trim (takeWhile (\<lambda>c. \<not> isLineBreak c) r)"
proof -
  from restOfLine_value [OF assms(3)] obtain v
    where v: "restOfLine r = Some v" "trim v = trim (takeWhile (\<lambda>c. \<not> isLineBreak c) r)"
    by blast
  with labelledValue_absent [OF assms(1)] labelledValue_first [OF assms(2)]
  have "redditUser str = trim v" by (simp add: redditUser_def)
  with v(2) assms(3) show ?thesis by (simp add: finalRedditUser_def)
qed

lemma parse_author_line:
  assumes "findLine ''author:'' (linesOf t) = Some l"
    and "stripMarkdown (dropLabel ''author:'' l) \<noteq> []"
    and "parseModmailMessageFromFullText t = Some p"
  shows "redditName p = stripMarkdown (dropLabel ''author:'' l)"
  using parse_Some(5) [OF assms(3)] assms(1,2) by (simp add: authorName_def Let_def)

lemma parse_no_author_line:
  assumes "findLine ''author:'' (linesOf t) = None"
    and "parseModmailMessageFromFullText t = Some p"
  shows "redditName p = stripMarkdown (hd (linesOf t))"
  using parse_Some(5) [OF assms(2)] assms(1) by (simp add: authorName_def)

text \<open>
  C4: with a Participant line and an Author line of different values, the extracted
  Reddit name is the Participant line's. This fails in the verifier script, whose parser
  knows no Participant label and takes the Author line; in the watcher script it fails
  when the Participant line has no value, where the match runs on into the next line.
\<close>

theorem participant_not_preferred:
  "parseModmailMessageFromFullText
     (''Participant: Alice'' @ [newline] @ ''Author: Bob'' @ [newline]
      @ ''Body: Verify Discord: carol'')
   = Some \<lparr>redditName = ''Bob'', discordName = ''carol'', status = ''Unknown''\<rparr>
   \<and> finalRedditUser (''Participant:'' @ [newline] @ ''Author: Bob'') = ''Author: Bob''"
  by code_simp

text \<open>
  C4, as it holds. In the watcher script, when the rest of the line after the first
  \<open>Participant:\<close> of the text (any letter case) is not blank, the Reddit user is that
  rest of line, trimmed, whatever Author lines and first line the text has; with no
  \<open>Participant:\<close> in the text the same holds of the first \<open>Author:\<close>. In the verifier
  script the parser takes the value of the first line that starts with \<open>author:\<close> when
  that value is not empty after stripping, and the stripped first line when no line
  starts with \<open>author:\<close>; a Participant line is a line like any other.
\<close>

theorem reddit_name_sources:
  "(searchFrom (lit ''Participant:'') str = Some r
      \<and> trim (takeWhile (\<lambda>c. \<not> isLineBreak c) r) \<noteq> []
    \<longrightarrow> finalRedditUser str = trim (takeWhile (\<lambda>c. \<not> isLineBreak c) r))
   \<and> (searchFrom (lit ''Participant:'') str = None
      \<and> searchFrom (lit ''Author:'') str = Some r'
      \<and> trim (takeWhile (\<lambda>c. \<not> isLineBreak c) r') \<noteq> []
    \<longrightarrow> finalRedditUser str = trim (takeWhile (\<lambda>c. \<not> isLineBreak c) r'))
   \<and> (findLine ''author:'' (linesOf t) = Some l
      \<and> stripMarkdown (dropLabel ''author:'' l) \<noteq> []
      \<and> parseModmailMessageFromFullText t = Some p
    \<longrightarrow> redditName p = stripMarkdown (dropLabel ''author:'' l))
   \<and> (findLine ''author:'' (linesOf t) = None
      \<and> parseModmailMessageFromFullText t = Some p
    \<longrightarrow> redditName p = stripMarkdown (hd (linesOf t)))"
  using redditUser_participant [of str r] redditUser_author [of str r']
    parse_author_line [of t l p] parse_no_author_line [of t p]
  by blast

theorem reddit_name_sources_witness:
  "finalRedditUser (''Modmail'' @ [newline] @ ''Participant: Alice'' @ [newline] @ ''Author: Bob'')
     = ''Alice''
   \<and> finalRedditUser (''Modmail'' @ [newline] @ ''Author: Bob'') = ''Bob''
   \<and> map_option redditName
        (parseModmailMessageFromFullText
           (''Participant: Alice'' @ [newline] @ ''Author: **Bob**'' @ [newline]
            @ ''Body: Verify Discord: carol''))
       = Some ''Bob''
   \<and> map_option redditName
        (parseModmailMessageFromFullText
           (''Participant: Alice'' @ [newline] @ ''Body: Verify Discord: carol''))
       = Some ''Participant: Alice''"
proof -
  let ?t1 = "''Modmail'' @ [newline] @ ''Participant: Alice'' @ [newline] @ ''Author: Bob''"
  let ?r1 = "'' Alice'' @ [newline] @ ''Author: Bob''"
  let ?t2 = "''Modmail'' @ [newline] @ ''Author: Bob''"
  let ?t3 = "''Participant: Alice'' @ [newline] @ ''Author: **Bob**'' @ [newline]
             @ ''Body: Verify Discord: carol''"
  let ?t4 = "''Participant: Alice'' @ [newline] @ ''Body: Verify Discord: carol''"
  let ?p3 = "\<lparr>redditName = ''Bob'', discordName = ''carol'', status = ''Unknown''\<rparr>"
  let ?p4 = "\<lparr>redditName = ''Participant: Alice'', discordName = ''carol'', status = ''Unknown''\<rparr>"
  have a: "searchFrom (lit ''Participant:'') ?t1 = Some ?r1"
    "trim (takeWhile (\<lambda>c. \<not> isLineBreak c) ?r1) = ''Alice''"
    by code_simp+
  have b: "searchFrom (lit ''Participant:'') ?t2 = None"
    "searchFrom (lit ''Author:'') ?t2 = Some '' Bob''"
    "trim (takeWhile (\<lambda>c. \<not> isLineBreak c) '' Bob'') = ''Bob''"
    by code_simp+
  have c: "findLine ''author:'' (linesOf ?t3) = Some ''Author: **Bob**''"
    "stripMarkdown (dropLabel ''author:'' ''Author: **Bob**'') = ''Bob''"
    "parseModmailMessageFromFullText ?t3 = Some ?p3"
    by code_simp+
  have d: "findLine ''author:'' (linesOf ?t4) = None"
    "parseModmailMessageFromFullText ?t4 = Some ?p4"
    "stripMarkdown (hd (linesOf ?t4)) = ''Participant: Alice''"
    by code_simp+
  from reddit_name_sources [where str = ?t1 and r = ?r1] a
  have 1: "finalRedditUser ?t1 = ''Alice''" by simp
  from reddit_name_sources [where str = ?t2 and r' = "'' Bob''"] b
  have 2: "finalRedditUser ?t2 = ''Bob''" by simp
  from reddit_name_sources [where t = ?t3 and l = "''Author: **Bob**''" and p = ?p3] c
  have 3: "redditName ?p3 = ''Bob''" by simp
  from reddit_name_sources [where t = ?t4 and p = ?p4] d
  have 4: "redditName ?p4 = ''Participant: Alice''" by simp
  from 1 2 3 4 c(3) d(2) show ?thesis by simp
qed

end
